theory Spec2Isabelle
  imports Complex_Main "HOL-Library.Sublist" "HOL-Library.Log_Nat"
begin

section \<open>Data model\<close>

text \<open>
  The notebook \<^verbatim>\<open>Summarizing_long_documents.ipynb\<close> defines four functions:
  \<^verbatim>\<open>tokenize\<close>, \<^verbatim>\<open>chunk_on_delimiter\<close>, \<^verbatim>\<open>combine_chunks_with_no_minimum\<close> and
  \<^verbatim>\<open>summarize\<close>, plus the wrapper \<^verbatim>\<open>get_chat_completion\<close>.

  Two collaborators are outside the notebook: the tiktoken encoding behind
  \<^verbatim>\<open>tokenize\<close> and the chat completion client. Both are parameters of the model:
  a tokenizer maps a string to its list of token ids (the code only ever takes the length
  of that list), and a client maps a model name and a message list to a response
  (\<open>Inr\<close>) or to the exception it raised (\<open>Inl\<close>, carrying its text), which the
  notebook does not catch: it reaches the caller as \<open>ServiceError\<close>.
\<close>

type_synonym token = nat
type_synonym tokenizer = "string \<Rightarrow> token list"
type_synonym message = "string \<times> string"

datatype error =
    ValueError
  | AssertionError
  | ZeroDivisionError
  | ServiceError string

type_synonym client = "string \<Rightarrow> message list \<Rightarrow> string + string"

text \<open>
  What the code prints and what it sends to the completion service, in order. The two
  warnings and the two verbose lines are f-strings around numbers; the events keep the
  numbers.
\<close>

datatype event =
    Chunk_overflow_warning
  | Dropped_warning nat
  | Verbose_split nat
  | Verbose_lengths "nat list"
  | Completion_request string "message list"

section \<open>Strings: split and join\<close>

text \<open>
  \<^verbatim>\<open>input_string.split(delimiter)\<close>: a left-to-right scan cutting at every
  non-overlapping occurrence of the separator; an empty separator raises ValueError.
  \<open>cur\<close> is the segment being read.
\<close>

function split_from :: "string \<Rightarrow> string \<Rightarrow> string \<Rightarrow> string list" where
  "split_from sep cur [] = [cur]"
| "split_from sep cur (c # cs) =
     (if sep \<noteq> [] \<and> prefix sep (c # cs)
      then cur # split_from sep [] (drop (length sep) (c # cs))
      else split_from sep (cur @ [c]) cs)"
  by pat_completeness auto
termination
  by (relation "measure (\<lambda>(sep, cur, s). length s)") auto

definition py_split :: "string \<Rightarrow> string \<Rightarrow> error + string list" where
  "py_split s sep = (if sep = [] then Inl ValueError else Inr (split_from sep [] s))"

text \<open>\<^verbatim>\<open>sep.join(xs)\<close>.\<close>

fun join :: "string \<Rightarrow> string list \<Rightarrow> string" where
  "join sep [] = []"
| "join sep [x] = x"
| "join sep (x # y # ys) = x @ sep @ join sep (y # ys)"

definition token_count :: "tokenizer \<Rightarrow> string \<Rightarrow> int" where
  "token_count tokenize s = int (length (tokenize s))"

text \<open>
  A stand-in tokenizer for concrete evaluation: one token per character, the token id
  being the character code.
\<close>

definition char_tokenize :: tokenizer where
  "char_tokenize s = map of_char s"

section \<open>The chunk packer\<close>

text \<open>
  The local variables of \<^verbatim>\<open>combine_chunks_with_no_minimum\<close>. Every list the loop
  appends to is either rebound to a fresh list or never shared, so plain values model
  them.
\<close>

text \<open>The source's \<^verbatim>\<open>output\<close> is \<open>output_chunks\<close> here (\<open>output\<close> is reserved).\<close>

record packer_state =
  dropped_chunk_count :: nat
  output_chunks :: "string list"
  output_indices :: "nat list list"
  candidate :: "string list"
  candidate_indices :: "nat list"
  printed :: "event list"

definition chunk_with_header :: "string option \<Rightarrow> string \<Rightarrow> string list" where
  "chunk_with_header header chunk = (case header of None \<Rightarrow> [chunk] | Some h \<Rightarrow> [h, chunk])"

text \<open>\<open>overflows\<close> is the test of the loop's first \<^verbatim>\<open>if\<close>: the segment alone, with the
  header, is over the budget.\<close>

definition overflows :: "tokenizer \<Rightarrow> int \<Rightarrow> string \<Rightarrow> string option \<Rightarrow> string \<Rightarrow> bool" where
  "overflows tokenize max_tokens chunk_delimiter header chunk \<longleftrightarrow>
     token_count tokenize (join chunk_delimiter (chunk_with_header header chunk)) > max_tokens"

text \<open>One iteration of the loop body, for the segment \<open>chunk\<close> at index \<open>chunk_i\<close>.\<close>

definition pack_step ::
  "tokenizer \<Rightarrow> int \<Rightarrow> string \<Rightarrow> string option \<Rightarrow> bool \<Rightarrow> nat \<Rightarrow> string \<Rightarrow>
   packer_state \<Rightarrow> packer_state" where
  "pack_step tokenize max_tokens chunk_delimiter header add_ellipsis_for_overflow chunk_i chunk st =
     (if overflows tokenize max_tokens chunk_delimiter header chunk then
        (if add_ellipsis_for_overflow \<and>
            token_count tokenize (join chunk_delimiter (candidate st @ [''...''])) \<le> max_tokens
         then st\<lparr>printed := printed st @ [Chunk_overflow_warning],
                 candidate := candidate st @ [''...''],
                 dropped_chunk_count := dropped_chunk_count st + 1\<rparr>
         else st\<lparr>printed := printed st @ [Chunk_overflow_warning]\<rparr>)
      else if token_count tokenize (join chunk_delimiter (candidate st @ [chunk])) > max_tokens then
        st\<lparr>output_chunks := output_chunks st @ [join chunk_delimiter (candidate st)],
           output_indices := output_indices st @ [candidate_indices st],
           candidate := chunk_with_header header chunk,
           candidate_indices := [chunk_i]\<rparr>
      else
        st\<lparr>candidate := candidate st @ [chunk],
           candidate_indices := candidate_indices st @ [chunk_i]\<rparr>)"

text \<open>\<^verbatim>\<open>for chunk_i, chunk in enumerate(chunks)\<close>, from index \<open>i\<close> on.\<close>

fun pack_loop ::
  "tokenizer \<Rightarrow> int \<Rightarrow> string \<Rightarrow> string option \<Rightarrow> bool \<Rightarrow> nat \<Rightarrow> string list \<Rightarrow>
   packer_state \<Rightarrow> packer_state" where
  "pack_loop tokenize max_tokens chunk_delimiter header ell i [] st = st"
| "pack_loop tokenize max_tokens chunk_delimiter header ell i (chunk # rest) st =
     pack_loop tokenize max_tokens chunk_delimiter header ell (Suc i) rest
       (pack_step tokenize max_tokens chunk_delimiter header ell i chunk st)"

text \<open>\<^verbatim>\<open>[] if header is None else [header]\<close>: the candidate before any segment.\<close>

definition start_candidate :: "string option \<Rightarrow> string list" where
  "start_candidate header = (case header of None \<Rightarrow> [] | Some h \<Rightarrow> [h])"

definition initial_state :: "string option \<Rightarrow> packer_state" where
  "initial_state header =
     \<lparr>dropped_chunk_count = 0, output_chunks = [], output_indices = [],
      candidate = start_candidate header,
      candidate_indices = [], printed = []\<rparr>"

text \<open>The last \<^verbatim>\<open>if\<close>: the remaining candidate is sealed when it holds more than the
  header.\<close>

definition seal_remaining :: "string \<Rightarrow> string option \<Rightarrow> packer_state \<Rightarrow> packer_state" where
  "seal_remaining chunk_delimiter header st =
     (if (header \<noteq> None \<and> length (candidate st) > 1) \<or> (header = None \<and> length (candidate st) > 0)
      then st\<lparr>output_chunks := output_chunks st @ [join chunk_delimiter (candidate st)],
              output_indices := output_indices st @ [candidate_indices st]\<rparr>
      else st)"

definition packer_final ::
  "tokenizer \<Rightarrow> string list \<Rightarrow> int \<Rightarrow> string \<Rightarrow> string option \<Rightarrow> bool \<Rightarrow> packer_state" where
  "packer_final tokenize chunks max_tokens chunk_delimiter header add_ellipsis_for_overflow =
     seal_remaining chunk_delimiter header
       (pack_loop tokenize max_tokens chunk_delimiter header add_ellipsis_for_overflow 0 chunks
          (initial_state header))"

text \<open>The function returns the triple; what it printed is returned beside it.\<close>

definition combine_chunks_with_no_minimum ::
  "tokenizer \<Rightarrow> string list \<Rightarrow> int \<Rightarrow> string \<Rightarrow> string option \<Rightarrow> bool \<Rightarrow>
   (string list \<times> nat list list \<times> nat) \<times> event list" where
  "combine_chunks_with_no_minimum tokenize chunks max_tokens chunk_delimiter header
       add_ellipsis_for_overflow =
     (let st = packer_final tokenize chunks max_tokens chunk_delimiter header
                 add_ellipsis_for_overflow
      in ((output_chunks st, output_indices st, dropped_chunk_count st), printed st))"

section \<open>The delimited chunker\<close>

definition chunk_on_delimiter ::
  "tokenizer \<Rightarrow> string \<Rightarrow> int \<Rightarrow> string \<Rightarrow> (error + string list) \<times> event list" where
  "chunk_on_delimiter tokenize input_string max_tokens delimiter =
     (case py_split input_string delimiter of
        Inl e \<Rightarrow> (Inl e, [])
      | Inr chunks \<Rightarrow>
          (case combine_chunks_with_no_minimum tokenize chunks max_tokens delimiter None True of
             ((combined_chunks, _, dropped), evs) \<Rightarrow>
               (Inr (map (\<lambda>chunk. chunk @ delimiter) combined_chunks),
                evs @ (if dropped > 0 then [Dropped_warning dropped]
                       else []))))"

section \<open>The summarization orchestrator\<close>

subsection \<open>Python floats\<close>

text \<open>
  \<^verbatim>\<open>detail\<close> is a Python float, an IEEE 754 binary64 number. A finite double is modelled
  by its value, a real number. \<open>round_double\<close> rounds a real number to the nearest double,
  ties to the even significand, with the 53 bits of precision of the format and the
  spacing \<open>2 powi (- 1074)\<close> of its subnormal range. A float multiplication or addition is
  the exact operation followed by this rounding, and an int operand is converted to a
  float by the same rounding.

  The argument \<^verbatim>\<open>detail\<close> is rounded where the arithmetic reads it: the value of a double
  is unchanged by that (\<open>round_double_dyadic\<close>), and a decimal in [0,1] such as \<open>3/10\<close>
  then stands for the double that the literal \<^verbatim>\<open>0.3\<close> denotes (rounding maps [0,1] into
  itself, \<open>round_double_unit\<close>, so the assertion reads the same).

  The type annotation of \<^verbatim>\<open>detail\<close> is \<^verbatim>\<open>float\<close>; its default \<^verbatim>\<open>0\<close> and an argument
  \<^verbatim>\<open>1\<close> are ints, on which Python computes exactly. The model gives the same counts, 1
  and \<open>max_chunks\<close>, for lists shorter than \<open>2 ^ 53\<close> (\<open>interpolate_at_ends\<close>).

  The upper end of the format (overflow to infinity from \<open>2 ^ 1024\<close> on) is not part of
  the model. The int operand is a list length and \<^verbatim>\<open>detail\<close> is at most 1 once the
  assertion has passed, so for a list shorter than \<open>2 ^ 63\<close> no intermediate value exceeds
  \<open>2 ^ 64\<close> (\<open>double_range_not_reached\<close>). NaN and the infinities fail the assertion.
\<close>

text \<open>Rounding to the nearest integer, ties to the even one.\<close>

definition round_half_even :: "real \<Rightarrow> int" where
  "round_half_even x =
     (let n = \<lfloor>x\<rfloor>; r = x - of_int n
      in if r < 1/2 then n else if 1/2 < r then n + 1 else if even n then n else n + 1)"

text \<open>For \<open>x > 0\<close>, the integer \<open>e\<close> with \<open>2 powi e \<le> x < 2 powi (e + 1)\<close>.\<close>

definition binary_exponent :: "real \<Rightarrow> int" where
  "binary_exponent x =
     (if 1 \<le> x then bitlen \<lfloor>x\<rfloor> - 1 else - bitlen (\<lceil>1 / x\<rceil> - 1))"

text \<open>The exponent of the spacing of the doubles around \<open>x\<close>.\<close>

definition ulp_exponent :: "real \<Rightarrow> int" where
  "ulp_exponent x = max (binary_exponent \<bar>x\<bar> - 52) (- 1074)"

definition round_double :: "real \<Rightarrow> real" where
  "round_double x =
     (if x = 0 then 0
      else of_int (round_half_even (x / 2 powi ulp_exponent x)) * 2 powi ulp_exponent x)"

definition float_of_int :: "int \<Rightarrow> real" where
  "float_of_int n = round_double (of_int n)"

definition float_mul :: "real \<Rightarrow> real \<Rightarrow> real" where
  "float_mul a b = round_double (a * b)"

definition float_add :: "real \<Rightarrow> real \<Rightarrow> real" where
  "float_add a b = round_double (a + b)"

text \<open>\<^verbatim>\<open>int(x)\<close> truncates toward zero.\<close>

definition py_int :: "real \<Rightarrow> int" where
  "py_int x = (if 0 \<le> x then \<lfloor>x\<rfloor> else \<lceil>x\<rceil>)"

subsection \<open>The function\<close>

text \<open>
  The block under \<^verbatim>\<open># interpolate the number of chunks\<close>, from \<^verbatim>\<open>max_chunks\<close> on:
  \<^verbatim>\<open>int(min_chunks + detail * (max_chunks - min_chunks))\<close>, an int difference, a float
  product, a float sum.
\<close>

definition interpolate_num_chunks :: "real \<Rightarrow> nat \<Rightarrow> int" where
  "interpolate_num_chunks detail max_chunks =
     (let min_chunks = (1::int)
      in py_int (float_add (float_of_int min_chunks)
           (float_mul (round_double detail) (float_of_int (int max_chunks - min_chunks)))))"

text \<open>The block under \<^verbatim>\<open># adjust chunk_size\<close>: \<^verbatim>\<open>//\<close> raises on a zero divisor.\<close>

definition adjust_chunk_size :: "int \<Rightarrow> nat \<Rightarrow> int \<Rightarrow> error + int" where
  "adjust_chunk_size minimum_chunk_size document_length num_chunks =
     (if num_chunks = 0 then Inl ZeroDivisionError
      else Inr (max minimum_chunk_size (int document_length div num_chunks)))"

definition get_chat_completion :: "client \<Rightarrow> message list \<Rightarrow> string \<Rightarrow> error + string" where
  "get_chat_completion client messages model =
     (case client model messages of Inl raised \<Rightarrow> Inl (ServiceError raised) | Inr content \<Rightarrow> Inr content)"

definition system_message_content :: "string option \<Rightarrow> string" where
  "system_message_content additional_instructions =
     ''Rewrite this text in summarized form.'' @
     (case additional_instructions of None \<Rightarrow> [] | Some a \<Rightarrow> ''\<newline>\<newline>'' @ a)"

definition user_message_content :: "bool \<Rightarrow> string list \<Rightarrow> string \<Rightarrow> string" where
  "user_message_content summarize_recursively accumulated_summaries chunk =
     (if summarize_recursively \<and> accumulated_summaries \<noteq> [] then
        ''Previous summaries:\<newline>\<newline>'' @ join ''\<newline>\<newline>'' accumulated_summaries @
        ''\<newline>\<newline>Text to summarize next:\<newline>\<newline>'' @ chunk
      else chunk)"

text \<open>
  \<^verbatim>\<open>for chunk in tqdm(text_chunks)\<close>, with \<open>acc\<close> the list \<^verbatim>\<open>accumulated_summaries\<close>.
  An exception of the service ends the loop; the request that raised it was still sent.
\<close>

fun summarize_loop ::
  "client \<Rightarrow> string \<Rightarrow> string \<Rightarrow> bool \<Rightarrow> string list \<Rightarrow> string list \<Rightarrow>
   (error + string list) \<times> event list" where
  "summarize_loop client model sys recursively acc [] = (Inr acc, [])"
| "summarize_loop client model sys recursively acc (chunk # rest) =
     (let messages = [(''system'', sys), (''user'', user_message_content recursively acc chunk)]
      in case get_chat_completion client messages model of
           Inl e \<Rightarrow> (Inl e, [Completion_request model messages])
         | Inr response \<Rightarrow>
             (case summarize_loop client model sys recursively (acc @ [response]) rest of
                (r, evs) \<Rightarrow> (r, Completion_request model messages # evs)))"

text \<open>Everything \<^verbatim>\<open>summarize\<close> does once \<^verbatim>\<open>text_chunks\<close> is known.\<close>

definition summarize_text_chunks ::
  "tokenizer \<Rightarrow> client \<Rightarrow> string \<Rightarrow> string option \<Rightarrow> bool \<Rightarrow> bool \<Rightarrow> string list \<Rightarrow>
   (error + string) \<times> event list" where
  "summarize_text_chunks tokenize client model additional_instructions summarize_recursively
       verbose text_chunks =
     (let shown = (if verbose
                   then [Verbose_split (length text_chunks),
                         Verbose_lengths (map (\<lambda>x. length (tokenize x)) text_chunks)]
                   else [])
      in case summarize_loop client model (system_message_content additional_instructions)
                summarize_recursively [] text_chunks of
           (Inl e, evs) \<Rightarrow> (Inl e, shown @ evs)
         | (Inr accumulated_summaries, evs) \<Rightarrow>
             (Inr (join ''\<newline>\<newline>'' accumulated_summaries), shown @ evs))"

definition summarize ::
  "tokenizer \<Rightarrow> client \<Rightarrow> string \<Rightarrow> real \<Rightarrow> string \<Rightarrow> string option \<Rightarrow> int \<Rightarrow> string \<Rightarrow>
   bool \<Rightarrow> bool \<Rightarrow> (error + string) \<times> event list" where
  "summarize tokenize client text detail model additional_instructions minimum_chunk_size
       chunk_delimiter summarize_recursively verbose =
     (if \<not> (0 \<le> detail \<and> detail \<le> 1) then (Inl AssertionError, [])
      else
        case chunk_on_delimiter tokenize text minimum_chunk_size chunk_delimiter of
          (Inl e, evs1) \<Rightarrow> (Inl e, evs1)
        | (Inr probe, evs1) \<Rightarrow>
            (let max_chunks = length probe;
                 num_chunks = interpolate_num_chunks detail max_chunks;
                 document_length = length (tokenize text)
             in case adjust_chunk_size minimum_chunk_size document_length num_chunks of
                  Inl e \<Rightarrow> (Inl e, evs1)
                | Inr chunk_size \<Rightarrow>
                    (case chunk_on_delimiter tokenize text chunk_size chunk_delimiter of
                       (Inl e, evs2) \<Rightarrow> (Inl e, evs1 @ evs2)
                     | (Inr text_chunks, evs2) \<Rightarrow>
                         (case summarize_text_chunks tokenize client model
                                 additional_instructions summarize_recursively verbose
                                 text_chunks of
                            (r, evs3) \<Rightarrow> (r, evs1 @ evs2 @ evs3)))))"

text \<open>
  A tokenizer with one merged word, for concrete evaluation: the string \<open>abcd\<close> alone is one
  token, every other string has one token per character.
\<close>

definition word_tokenize :: tokenizer where
  "word_tokenize s = (if s = ''abcd'' then [0] else map of_char s)"

text \<open>
  A stand-in completion service for concrete evaluation: it answers every request with
  the last three characters of the user message between brackets.
\<close>

definition tail_client :: client where
  "tail_client model messages =
     (let content = snd (last messages)
      in Inr (''['' @ drop (length content - 3) content @ '']''))"

section \<open>Notions used by the properties\<close>

text \<open>
  The indices of the segments the loop does not skip, in increasing order: those whose
  header-prefixed form alone is within the budget. \<open>kept_from\<close> walks the segments as
  the loop does, from index \<open>i\<close>.
\<close>

definition kept_indices ::
  "tokenizer \<Rightarrow> int \<Rightarrow> string \<Rightarrow> string option \<Rightarrow> string list \<Rightarrow> nat list" where
  "kept_indices tokenize max_tokens d header chunks =
     filter (\<lambda>k. \<not> overflows tokenize max_tokens d header (chunks ! k)) [0..<length chunks]"

fun kept_from ::
  "tokenizer \<Rightarrow> int \<Rightarrow> string \<Rightarrow> string option \<Rightarrow> nat \<Rightarrow> string list \<Rightarrow> nat list" where
  "kept_from tokenize max_tokens d header i [] = []"
| "kept_from tokenize max_tokens d header i (chunk # rest) =
     (if overflows tokenize max_tokens d header chunk then [] else [i]) @
     kept_from tokenize max_tokens d header (Suc i) rest"

text \<open>
  The detail interpolation as the specification words it: \<open>min_chunks = 1\<close>,
  \<open>num_chunks = floor(min_chunks + detail * (max_chunks - min_chunks))\<close> and
  \<open>chunk_size = max(minimum_chunk_size, document_token_count // num_chunks)\<close>.
  \<open>spec_num_chunks\<close> is the floor of the exact value; \<open>rounded_num_chunks\<close> is the floor
  of the same expression evaluated in double precision.
\<close>

definition spec_num_chunks :: "real \<Rightarrow> nat \<Rightarrow> int" where
  "spec_num_chunks detail max_chunks = \<lfloor>1 + detail * (real max_chunks - 1)\<rfloor>"

definition rounded_num_chunks :: "real \<Rightarrow> nat \<Rightarrow> int" where
  "rounded_num_chunks detail max_chunks =
     \<lfloor>round_double
        (1 + round_double (round_double detail * round_double (of_int (int max_chunks - 1))))\<rfloor>"

definition spec_chunk_size :: "int \<Rightarrow> nat \<Rightarrow> int \<Rightarrow> int" where
  "spec_chunk_size minimum_chunk_size document_token_count num_chunks =
     max minimum_chunk_size (int document_token_count div num_chunks)"

text \<open>A run \<open>i, i+1, ..., j\<close> with no gap.\<close>

fun contiguous_run :: "nat list \<Rightarrow> bool" where
  "contiguous_run [] = True"
| "contiguous_run (i # rest) = (i # rest = [i..<i + length (i # rest)])"

text \<open>
  Loop invariants of the packer. \<open>within_budget\<close>: every sealed chunk is within the
  budget, and so is the candidate as soon as it differs from its starting value.
  \<open>indices_fit\<close>: the candidate holds at least one string per recorded index beside the
  header.
\<close>

definition within_budget ::
  "tokenizer \<Rightarrow> int \<Rightarrow> string \<Rightarrow> string option \<Rightarrow> packer_state \<Rightarrow> bool" where
  "within_budget tokenize max_tokens d header st \<longleftrightarrow>
     list_all (\<lambda>c. token_count tokenize c \<le> max_tokens) (output_chunks st) \<and>
     (candidate st = start_candidate header \<or>
      token_count tokenize (join d (candidate st)) \<le> max_tokens)"

definition indices_fit :: "string option \<Rightarrow> packer_state \<Rightarrow> bool" where
  "indices_fit header st \<longleftrightarrow>
     length (start_candidate header) + length (candidate_indices st) \<le> length (candidate st)"

section \<open>The packer keeps every sealed chunk within the budget\<close>

lemma chunk_with_header_start:
  "chunk_with_header header chunk = start_candidate header @ [chunk]"
  by (simp add: chunk_with_header_def start_candidate_def split: option.splits)

lemma within_budget_step:
  assumes "within_budget tokenize max_tokens d header st"
  shows "within_budget tokenize max_tokens d header
           (pack_step tokenize max_tokens d header ell i chunk st)"
  using assms
  by (auto simp: within_budget_def pack_step_def overflows_def chunk_with_header_start)

lemma within_budget_loop:
  "within_budget tokenize max_tokens d header st \<Longrightarrow>
   within_budget tokenize max_tokens d header
     (pack_loop tokenize max_tokens d header ell i chunks st)"
  by (induction chunks arbitrary: i st) (simp_all add: within_budget_step)

lemma within_budget_initial: "within_budget tokenize max_tokens d header (initial_state header)"
  by (simp add: within_budget_def initial_state_def)

lemma within_budget_seal:
  assumes "within_budget tokenize max_tokens d header st"
  shows "list_all (\<lambda>c. token_count tokenize c \<le> max_tokens)
           (output_chunks (seal_remaining d header st))"
  using assms
  by (auto simp: within_budget_def seal_remaining_def start_candidate_def split: option.splits)

lemma packer_final_budget:
  "list_all (\<lambda>c. token_count tokenize c \<le> max_tokens)
     (output_chunks (packer_final tokenize chunks max_tokens d header ell))"
  unfolding packer_final_def
  by (intro within_budget_seal within_budget_loop within_budget_initial)

lemma split_from_nonempty: "split_from sep cur s \<noteq> []"
  by (induction sep cur s rule: split_from.induct) auto

lemma chunk_on_delimiter_Inr:
  assumes "fst (chunk_on_delimiter tokenize text max_tokens d) = Inr cs"
  shows "d \<noteq> [] \<and>
         cs = map (\<lambda>chunk. chunk @ d)
                (output_chunks (packer_final tokenize (split_from d [] text) max_tokens d None True))"
  using assms
  by (auto simp: chunk_on_delimiter_def py_split_def combine_chunks_with_no_minimum_def Let_def
           split: if_splits)

text \<open>
  C1, as the claim states it, fails: the code measures a chunk before the delimiter is
  reattached and never after. Under a tokenizer for which \<open>abcd\<close> is one token and
  \<open>abcd.\<close> five, the text \<open>abcd\<close> at a budget of 1 is returned as the chunk \<open>abcd.\<close>, whose
  five tokens exceed \<open>max_tokens + count_tokens d = 2\<close>.
\<close>

theorem returned_chunk_over_budget:
  "fst (chunk_on_delimiter word_tokenize ''abcd'' 1 ''.'') = Inr [''abcd.''] \<and>
   token_count word_tokenize ''abcd'' = 1 \<and>
   token_count word_tokenize ''.'' = 1 \<and>
   token_count word_tokenize ''abcd.'' = 5 \<and>
   \<not> token_count word_tokenize ''abcd.'' \<le> 1 + token_count word_tokenize ''.''"
  by code_simp

text \<open>
  C1, amended. Every chunk the packer seals, header included and joined with the
  delimiter, has at most \<open>max_tokens\<close> tokens before the delimiter is reattached, for every
  segment list, budget, delimiter, header and ellipsis flag. The chunker returns each
  sealed chunk with the delimiter appended, so its chunks have at most
  \<open>max_tokens + count_tokens d\<close> tokens whenever the tokenizer counts a string followed by
  the delimiter at no more than the sum of the two counts.
\<close>

theorem sealed_chunks_within_budget:
  "(\<forall>c \<in> set (fst (fst (combine_chunks_with_no_minimum tokenize chunks max_tokens d header ell))).
      token_count tokenize c \<le> max_tokens) \<and>
   ((\<forall>s. token_count tokenize (s @ d) \<le> token_count tokenize s + token_count tokenize d) \<longrightarrow>
    (\<forall>cs. fst (chunk_on_delimiter tokenize text max_tokens d) = Inr cs \<longrightarrow>
       (\<forall>c \<in> set cs. token_count tokenize c \<le> max_tokens + token_count tokenize d)))"
proof (intro conjI impI allI ballI)
  fix c
  assume "c \<in> set (fst (fst (combine_chunks_with_no_minimum tokenize chunks max_tokens d header ell)))"
  then have "c \<in> set (output_chunks (packer_final tokenize chunks max_tokens d header ell))"
    by (simp add: combine_chunks_with_no_minimum_def Let_def)
  with packer_final_budget [of tokenize max_tokens chunks d header ell]
  show "token_count tokenize c \<le> max_tokens"
    by (simp add: list_all_iff)
next
  fix cs c
  assume sub: "\<forall>s. token_count tokenize (s @ d) \<le> token_count tokenize s + token_count tokenize d"
    and run: "fst (chunk_on_delimiter tokenize text max_tokens d) = Inr cs"
    and c: "c \<in> set cs"
  from chunk_on_delimiter_Inr [OF run] c obtain sealed where
    sealed: "sealed \<in> set (output_chunks
               (packer_final tokenize (split_from d [] text) max_tokens d None True))"
    and c_eq: "c = sealed @ d"
    by auto
  from sealed packer_final_budget [of tokenize max_tokens "split_from d [] text" d None True]
  have "token_count tokenize sealed \<le> max_tokens"
    by (simp add: list_all_iff)
  with sub show "token_count tokenize c \<le> max_tokens + token_count tokenize d"
    unfolding c_eq by (metis add.commute add_le_cancel_left order_trans)
qed

theorem sealed_chunks_within_budget_witness:
  "(\<forall>s. token_count char_tokenize (s @ ''.'') \<le>
         token_count char_tokenize s + token_count char_tokenize ''.'') \<and>
   fst (chunk_on_delimiter char_tokenize ''a.bb.ccc'' 4 ''.'') = Inr [''a.bb.'', ''ccc.''] \<and>
   token_count char_tokenize ''a.bb.'' \<le> 4 + token_count char_tokenize ''.'' \<and>
   token_count char_tokenize ''ccc.'' \<le> 4 + token_count char_tokenize ''.'' \<and>
   fst (fst (combine_chunks_with_no_minimum char_tokenize [''a'', ''bb'', ''ccc''] 4 ''.'' None True)) =
     [''a.bb'', ''ccc''] \<and>
   token_count char_tokenize ''a.bb'' \<le> 4 \<and> token_count char_tokenize ''ccc'' \<le> 4"
proof -
  have sub: "\<forall>s. token_count char_tokenize (s @ ''.'') \<le>
                  token_count char_tokenize s + token_count char_tokenize ''.''"
    by (simp add: token_count_def char_tokenize_def)
  have run: "fst (chunk_on_delimiter char_tokenize ''a.bb.ccc'' 4 ''.'') = Inr [''a.bb.'', ''ccc.'']"
    by code_simp
  have packed: "fst (fst (combine_chunks_with_no_minimum char_tokenize [''a'', ''bb'', ''ccc''] 4 ''.''
                  None True)) = [''a.bb'', ''ccc'']"
    by code_simp
  note inst = sealed_chunks_within_budget
    [of char_tokenize "[''a'', ''bb'', ''ccc'']" 4 "''.''" None True "''a.bb.ccc''"]
  from inst sub run have
    "\<forall>c \<in> set [''a.bb.'', ''ccc.'']. token_count char_tokenize c \<le> 4 + token_count char_tokenize ''.''"
    by blast
  moreover from inst packed have
    "\<forall>c \<in> set [''a.bb'', ''ccc'']. token_count char_tokenize c \<le> 4"
    by simp
  ultimately show ?thesis
    using sub run packed by simp
qed

section \<open>The index groups\<close>

lemma kept_from_filter:
  "kept_from tokenize max_tokens d header i chunks =
   filter (\<lambda>k. \<not> overflows tokenize max_tokens d header (chunks ! (k - i)))
     [i..<i + length chunks]"
proof (induction chunks arbitrary: i)
  case Nil
  show ?case by simp
next
  case (Cons chunk rest)
  have upt: "[i..<i + length (chunk # rest)] = i # [Suc i..<Suc i + length rest]"
    by (subst upt_conv_Cons) simp_all
  have shifted:
    "filter (\<lambda>k. \<not> overflows tokenize max_tokens d header ((chunk # rest) ! (k - i)))
       [Suc i..<Suc i + length rest] =
     filter (\<lambda>k. \<not> overflows tokenize max_tokens d header (rest ! (k - Suc i)))
       [Suc i..<Suc i + length rest]"
  proof (rule filter_cong)
    fix k assume "k \<in> set [Suc i..<Suc i + length rest]"
    then have "Suc i \<le> k" by (simp del: upt_Suc)
    then have "k - i = Suc (k - Suc i)" by arith
    then show "(\<not> overflows tokenize max_tokens d header ((chunk # rest) ! (k - i))) =
               (\<not> overflows tokenize max_tokens d header (rest ! (k - Suc i)))"
      by simp
  qed simp
  have "kept_from tokenize max_tokens d header i (chunk # rest) =
        (if overflows tokenize max_tokens d header chunk then [] else [i]) @
        filter (\<lambda>k. \<not> overflows tokenize max_tokens d header (rest ! (k - Suc i)))
          [Suc i..<Suc i + length rest]"
    by (simp only: kept_from.simps Cons.IH)
  also have "\<dots> =
        filter (\<lambda>k. \<not> overflows tokenize max_tokens d header ((chunk # rest) ! (k - i)))
          (i # [Suc i..<Suc i + length rest])"
    by (simp only: shifted [symmetric]) simp
  finally show ?case
    by (simp only: upt)
qed

lemma kept_from_0:
  "kept_from tokenize max_tokens d header 0 chunks = kept_indices tokenize max_tokens d header chunks"
  by (simp add: kept_from_filter kept_indices_def)

lemma indices_step:
  "concat (output_indices (pack_step tokenize max_tokens d header ell i chunk st)) @
     candidate_indices (pack_step tokenize max_tokens d header ell i chunk st) =
   concat (output_indices st) @ candidate_indices st @
     (if overflows tokenize max_tokens d header chunk then [] else [i])"
  by (simp add: pack_step_def)

lemma indices_loop:
  "concat (output_indices (pack_loop tokenize max_tokens d header ell i chunks st)) @
     candidate_indices (pack_loop tokenize max_tokens d header ell i chunks st) =
   concat (output_indices st) @ candidate_indices st @
     kept_from tokenize max_tokens d header i chunks"
  by (induction chunks arbitrary: i st) (simp_all add: indices_step)

lemma indices_fit_step:
  "indices_fit header st \<Longrightarrow>
   indices_fit header (pack_step tokenize max_tokens d header ell i chunk st)"
  by (auto simp: indices_fit_def pack_step_def chunk_with_header_start)

lemma indices_fit_loop:
  "indices_fit header st \<Longrightarrow>
   indices_fit header (pack_loop tokenize max_tokens d header ell i chunks st)"
  by (induction chunks arbitrary: i st) (simp_all add: indices_fit_step)

lemma indices_fit_initial: "indices_fit header (initial_state header)"
  by (simp add: indices_fit_def initial_state_def)

lemma indices_seal:
  assumes "indices_fit header st"
  shows "concat (output_indices (seal_remaining d header st)) =
         concat (output_indices st) @ candidate_indices st"
  using assms
  by (cases "candidate_indices st")
     (auto simp: indices_fit_def seal_remaining_def start_candidate_def split: option.splits)

lemma packer_final_indices:
  "concat (output_indices (packer_final tokenize chunks max_tokens d header ell)) =
   kept_indices tokenize max_tokens d header chunks"
proof -
  let ?st = "pack_loop tokenize max_tokens d header ell 0 chunks (initial_state header)"
  have "indices_fit header ?st"
    by (intro indices_fit_loop indices_fit_initial)
  then have "concat (output_indices (seal_remaining d header ?st)) =
             concat (output_indices ?st) @ candidate_indices ?st"
    by (rule indices_seal)
  also have "\<dots> = kept_from tokenize max_tokens d header 0 chunks"
    by (simp add: indices_loop initial_state_def)
  finally show ?thesis
    by (simp add: packer_final_def kept_from_0)
qed

lemma combine_groups:
  assumes "combine_chunks_with_no_minimum tokenize chunks max_tokens d header ell =
           ((combined, groups, dropped), evs)"
  shows "groups = output_indices (packer_final tokenize chunks max_tokens d header ell)"
  using assms by (auto simp: combine_chunks_with_no_minimum_def Let_def)

text \<open>
  C2. The index groups returned by the packer, concatenated in order, are exactly the
  increasing list of the indices of the segments that did not overflow alone; no index
  occurs twice.
\<close>

theorem index_groups_partition_kept:
  assumes "combine_chunks_with_no_minimum tokenize chunks max_tokens d header ell =
           ((combined, groups, dropped), evs)"
  shows "concat groups = kept_indices tokenize max_tokens d header chunks \<and>
         distinct (concat groups) \<and>
         set (concat groups) =
           {k. k < length chunks \<and> \<not> overflows tokenize max_tokens d header (chunks ! k)}"
proof -
  have cat: "concat groups = kept_indices tokenize max_tokens d header chunks"
    using combine_groups [OF assms] by (simp add: packer_final_indices)
  moreover have "distinct (kept_indices tokenize max_tokens d header chunks)"
    by (simp add: kept_indices_def)
  moreover have "set (kept_indices tokenize max_tokens d header chunks) =
      {k. k < length chunks \<and> \<not> overflows tokenize max_tokens d header (chunks ! k)}"
    by (auto simp: kept_indices_def)
  ultimately show ?thesis by simp
qed

theorem index_groups_partition_kept_witness:
  "combine_chunks_with_no_minimum char_tokenize [''a'', ''bbbbbbbb'', ''c'', ''dddd''] 7 ''.'' None True =
     (([''a.....c'', ''dddd''], [[0, 2], [3]], 1), [Chunk_overflow_warning]) \<and>
   kept_indices char_tokenize 7 ''.'' None [''a'', ''bbbbbbbb'', ''c'', ''dddd''] = [0, 2, 3] \<and>
   concat [[0, 2], [3]] = kept_indices char_tokenize 7 ''.'' None [''a'', ''bbbbbbbb'', ''c'', ''dddd'']"
proof -
  have run: "combine_chunks_with_no_minimum char_tokenize [''a'', ''bbbbbbbb'', ''c'', ''dddd''] 7 ''.''
               None True = (([''a.....c'', ''dddd''], [[0, 2], [3]], 1), [Chunk_overflow_warning])"
    by code_simp
  have kept: "kept_indices char_tokenize 7 ''.'' None [''a'', ''bbbbbbbb'', ''c'', ''dddd''] = [0, 2, 3]"
    by code_simp
  from index_groups_partition_kept [OF run] run kept show ?thesis
    by simp
qed

lemma group_slice:
  assumes cat: "concat gs = filter P [0..<n]" and g: "g \<in> set gs" and ne: "g \<noteq> []"
  shows "g = filter P [hd g..<Suc (last g)]"
proof -
  from g obtain xs ys where gs: "gs = xs @ g # ys"
    by (auto simp: in_set_conv_decomp)
  define a b where "a = concat xs" and "b = concat ys"
  have whole: "a @ g @ b = filter P [0..<n]"
    using cat by (simp add: gs a_def b_def)
  have "sorted_wrt (<) (a @ g @ b)"
    unfolding whole by (simp add: sorted_wrt_filter)
  then have sg: "sorted_wrt (<) g"
    and ag: "\<forall>x\<in>set a. \<forall>y\<in>set g. x < y"
    and gb: "\<forall>y\<in>set g. \<forall>z\<in>set b. y < z"
    by (auto simp: sorted_wrt_append)
  have hdg: "hd g \<in> set g" and lastg: "last g \<in> set g"
    using ne by simp_all
  have lo: "hd g \<le> y" if "y \<in> set g" for y
    using sg that ne by (cases g) auto
  have hi: "y \<le> last g" if "y \<in> set g" for y
  proof -
    from that obtain i where i: "i < length g" "g ! i = y"
      by (auto simp: in_set_conv_nth)
    show ?thesis
    proof (cases "i = length g - 1")
      case True
      then show ?thesis using i ne by (simp add: last_conv_nth)
    next
      case False
      then have "i < length g - 1" using i by simp
      then have "g ! i < g ! (length g - 1)"
        using sorted_wrt_nth_less [OF sg, of i "length g - 1"] ne by simp
      then show ?thesis using i ne by (simp add: last_conv_nth)
    qed
  qed
  have mem: "set (a @ g @ b) = {k. k < n \<and> P k}"
    unfolding whole by auto
  have "set g = set (filter P [hd g..<Suc (last g)])"
  proof (intro set_eqI iffI)
    fix k assume k: "k \<in> set g"
    then have "k \<in> set (a @ g @ b)" by simp
    then have "P k" unfolding mem by simp
    then show "k \<in> set (filter P [hd g..<Suc (last g)])"
      using lo [OF k] hi [OF k] by (simp del: upt_Suc)
  next
    fix k assume "k \<in> set (filter P [hd g..<Suc (last g)])"
    then have k: "hd g \<le> k" "k \<le> last g" "P k" by (auto simp del: upt_Suc)
    have "last g \<in> set (a @ g @ b)" using lastg by simp
    then have "last g < n" unfolding mem by simp
    then have "k \<in> set (a @ g @ b)" unfolding mem using k by simp
    moreover have "k \<notin> set a" using ag hdg k(1) by force
    moreover have "k \<notin> set b" using gb lastg k(2) by force
    ultimately show "k \<in> set g" by auto
  qed
  moreover have "sorted_wrt (<) (filter P [hd g..<Suc (last g)])"
    by (rule sorted_wrt_filter) (simp del: upt_Suc)
  ultimately show ?thesis
    using sg by (metis strict_sorted_equal)
qed

lemma contiguous_run_upt:
  assumes "g \<noteq> []" and "g = [hd g..<Suc (last g)]"
  shows "contiguous_run g"
proof -
  from assms(1) obtain i rest where g: "g = i # rest" by (cases g) auto
  have "length g = Suc (last g) - hd g"
    using arg_cong [OF assms(2), of length] by (simp del: upt_Suc)
  moreover have "0 < length g" using assms(1) by simp
  ultimately have "hd g + length g = Suc (last g)" by arith
  then have "g = [hd g..<hd g + length g]" using assms(2) by simp
  then have "i # rest = [i..<i + length (i # rest)]"
    unfolding g by (simp only: list.sel)
  then show ?thesis unfolding g contiguous_run.simps .
qed

text \<open>
  C4, as the claim states it, fails: with one token per character and a budget of 7, the
  segments \<open>a\<close>, \<open>bbbbbbbb\<close>, \<open>c\<close> give the single group \<open>[0, 2]\<close>. The middle segment
  overflows alone, an ellipsis marker takes its place in the candidate, and the candidate
  goes on with the next segment.
\<close>

theorem index_group_not_contiguous: "\<not> list_all contiguous_run
     (fst (snd (fst (combine_chunks_with_no_minimum char_tokenize [''a'', ''bbbbbbbb'', ''c''] 7 ''.''
        None True))))"
  by code_simp

text \<open>
  C4, amended. Every non-empty index group is the increasing list of the indices between
  its first and its last that did not overflow alone: the only indices it leaves out are
  those of skipped segments. When no segment between its first and last index overflows,
  the group is a contiguous run.
\<close>

theorem index_groups_gaps_are_dropped:
  assumes run: "combine_chunks_with_no_minimum tokenize chunks max_tokens d header ell =
           ((combined, groups, dropped), evs)"
    and g: "g \<in> set groups" and ne: "g \<noteq> []"
  shows "g = filter (\<lambda>k. \<not> overflows tokenize max_tokens d header (chunks ! k))
               [hd g..<Suc (last g)] \<and>
         ((\<forall>k. hd g \<le> k \<and> k \<le> last g \<longrightarrow>
               \<not> overflows tokenize max_tokens d header (chunks ! k)) \<longrightarrow>
          contiguous_run g)"
proof (intro conjI impI)
  have "concat groups =
        filter (\<lambda>k. \<not> overflows tokenize max_tokens d header (chunks ! k)) [0..<length chunks]"
    using combine_groups [OF run] by (simp add: packer_final_indices kept_indices_def)
  then show slice: "g = filter (\<lambda>k. \<not> overflows tokenize max_tokens d header (chunks ! k))
               [hd g..<Suc (last g)]"
    using g ne by (rule group_slice)
  assume "\<forall>k. hd g \<le> k \<and> k \<le> last g \<longrightarrow>
               \<not> overflows tokenize max_tokens d header (chunks ! k)"
  then have "filter (\<lambda>k. \<not> overflows tokenize max_tokens d header (chunks ! k))
               [hd g..<Suc (last g)] = [hd g..<Suc (last g)]"
    by (intro filter_True) (simp del: upt_Suc)
  with slice have "g = [hd g..<Suc (last g)]" by simp
  with ne show "contiguous_run g" by (rule contiguous_run_upt)
qed

theorem index_groups_gaps_are_dropped_witness:
  "combine_chunks_with_no_minimum char_tokenize [''a'', ''bbbbbbbb'', ''c'', ''dddd'', ''e''] 7 ''.'' None True =
     (([''a.....c'', ''dddd.e''], [[0, 2], [3, 4]], 1), [Chunk_overflow_warning]) \<and>
   [0, 2] = filter (\<lambda>k. \<not> overflows char_tokenize 7 ''.'' None
                ([''a'', ''bbbbbbbb'', ''c'', ''dddd'', ''e''] ! k)) [0..<Suc 2] \<and>
   overflows char_tokenize 7 ''.'' None ([''a'', ''bbbbbbbb'', ''c'', ''dddd'', ''e''] ! 1) \<and>
   \<not> overflows char_tokenize 7 ''.'' None ([''a'', ''bbbbbbbb'', ''c'', ''dddd'', ''e''] ! 3) \<and>
   \<not> overflows char_tokenize 7 ''.'' None ([''a'', ''bbbbbbbb'', ''c'', ''dddd'', ''e''] ! 4) \<and>
   contiguous_run [3, 4]"
proof -
  let ?chunks = "[''a'', ''bbbbbbbb'', ''c'', ''dddd'', ''e'']"
  have run: "combine_chunks_with_no_minimum char_tokenize ?chunks 7 ''.'' None True =
     (([''a.....c'', ''dddd.e''], [[0, 2], [3, 4]], 1), [Chunk_overflow_warning])"
    by code_simp
  have o1: "overflows char_tokenize 7 ''.'' None (?chunks ! 1)" by code_simp
  have o3: "\<not> overflows char_tokenize 7 ''.'' None (?chunks ! 3)" by code_simp
  have o4: "\<not> overflows char_tokenize 7 ''.'' None (?chunks ! 4)" by code_simp
  have all: "\<forall>k. hd [3, 4] \<le> k \<and> k \<le> last [3, 4::nat] \<longrightarrow>
               \<not> overflows char_tokenize 7 ''.'' None (?chunks ! k)"
  proof (intro allI impI)
    fix k :: nat assume "hd [3, 4] \<le> k \<and> k \<le> last [3, 4::nat]"
    then have "k = 3 \<or> k = 4" by auto
    then show "\<not> overflows char_tokenize 7 ''.'' None (?chunks ! k)"
      using o3 o4 by auto
  qed
  have m1: "[0, 2] \<in> set [[0, 2], [3, 4::nat]]" and n1: "[0, 2::nat] \<noteq> []"
    and m2: "[3, 4] \<in> set [[0, 2], [3, 4::nat]]" and n2: "[3, 4::nat] \<noteq> []"
    by simp_all
  have "[0, 2] = filter (\<lambda>k. \<not> overflows char_tokenize 7 ''.'' None (?chunks ! k))
                   [hd [0, 2]..<Suc (last [0, 2])]"
    by (rule index_groups_gaps_are_dropped [OF run m1 n1, THEN conjunct1])
  then have a: "[0, 2] = filter (\<lambda>k. \<not> overflows char_tokenize 7 ''.'' None (?chunks ! k)) [0..<Suc 2]"
    by (simp only: list.sel last.simps list.distinct if_False if_True simp_thms)
  have b: "contiguous_run [3, 4]"
    by (rule index_groups_gaps_are_dropped [OF run m2 n2, THEN conjunct2, THEN mp, OF all])
  from run a o1 o3 o4 b show ?thesis by (intro conjI)
qed
section \<open>The dropped count\<close>

text \<open>
  C5. The comment above \<^verbatim>\<open>combine_chunks_with_no_minimum\<close> says it returns "the count
  of chunks dropped due to overflow", and \<^verbatim>\<open>chunk_on_delimiter\<close> prints that count as
  the number of chunks dropped. The count is incremented only where the ellipsis marker
  is appended, so a segment skipped without a marker is dropped and not counted:
  \<^item> with the default flag (no ellipsis), the one segment \<open>hello world\<close> overflows a
    budget of 1 and the count returned is 0;
  \<^item> through \<^verbatim>\<open>chunk_on_delimiter\<close>, both segments of \<open>aaaa.bbbb\<close> overflow a budget
    of 3, the second marker does not fit, and the warning reports 1;
  \<^item> the one segment of \<open>ab\<close> overflows a budget of 1, no marker fits, and no dropped
    warning is printed.
\<close>

theorem dropped_count_misses_unmarked_overflow:
  "combine_chunks_with_no_minimum char_tokenize [''hello world''] 1 ''.'' None False =
     (([], [], 0), [Chunk_overflow_warning]) \<and>
   length (filter (overflows char_tokenize 1 ''.'' None) [''hello world'']) = 1 \<and>
   chunk_on_delimiter char_tokenize ''aaaa.bbbb'' 3 ''.'' =
     (Inr [''....''], [Chunk_overflow_warning, Chunk_overflow_warning, Dropped_warning 1]) \<and>
   py_split ''aaaa.bbbb'' ''.'' = Inr [''aaaa'', ''bbbb''] \<and>
   length (filter (overflows char_tokenize 3 ''.'' None) [''aaaa'', ''bbbb'']) = 2 \<and>
   chunk_on_delimiter char_tokenize ''ab'' 1 ''.'' = (Inr [], [Chunk_overflow_warning]) \<and>
   length (filter (overflows char_tokenize 1 ''.'' None) [''ab'']) = 1"
  by code_simp

section \<open>The delimited chunker's result\<close>

lemma chunk_on_delimiter_cases:
  "chunk_on_delimiter tokenize text max_tokens d =
   (if d = [] then (Inl ValueError, [])
    else (let st = packer_final tokenize (split_from d [] text) max_tokens d None True
          in (Inr (map (\<lambda>chunk. chunk @ d) (output_chunks st)),
              printed st @ (if dropped_chunk_count st > 0
                            then [Dropped_warning (dropped_chunk_count st)] else []))))"
  by (simp add: chunk_on_delimiter_def py_split_def combine_chunks_with_no_minimum_def Let_def)

lemma chunk_on_delimiter_total:
  "d \<noteq> [] \<Longrightarrow> \<exists>cs evs. chunk_on_delimiter tokenize input_string max_tokens d = (Inr cs, evs)"
  by (simp add: chunk_on_delimiter_cases Let_def)

lemma chunk_on_delimiter_Inl:
  "chunk_on_delimiter tokenize input_string max_tokens d = (Inl e, evs) \<Longrightarrow>
   d = [] \<and> e = ValueError \<and> evs = []"
  by (auto simp: chunk_on_delimiter_cases Let_def split: if_splits)

lemma chunk_on_delimiter_delimiter:
  "chunk_on_delimiter tokenize input_string max_tokens d = (Inr cs, evs) \<Longrightarrow> d \<noteq> []"
  by (auto simp: chunk_on_delimiter_cases Let_def split: if_splits)

text \<open>
  C9. \<^verbatim>\<open>chunk_on_delimiter\<close> raises ValueError on an empty delimiter (from
  \<^verbatim>\<open>str.split\<close>) and otherwise returns a list in which every string ends with the
  delimiter, the last one included, whatever the end of the input text.
\<close>

theorem returned_chunks_end_with_delimiter:
  "(case fst (chunk_on_delimiter tokenize input_string max_tokens d) of
      Inl e \<Rightarrow> d = [] \<and> e = ValueError
    | Inr cs \<Rightarrow> d \<noteq> [] \<and> (\<forall>c \<in> set cs. suffix d c))"
  by (auto simp: chunk_on_delimiter_cases Let_def suffix_def)

theorem returned_chunks_end_with_delimiter_witness:
  "fst (chunk_on_delimiter char_tokenize ''ab.cd.efg'' 5 ''.'') = Inr [''ab.cd.'', ''efg.''] \<and>
   suffix ''.'' ''ab.cd.'' \<and> suffix ''.'' ''efg.''"
proof -
  have run: "fst (chunk_on_delimiter char_tokenize ''ab.cd.efg'' 5 ''.'') = Inr [''ab.cd.'', ''efg.'']"
    by code_simp
  from returned_chunks_end_with_delimiter
    [where tokenize = char_tokenize and input_string = "''ab.cd.efg''" and max_tokens = 5 and d = "''.''"]
  have "\<forall>c \<in> set [''ab.cd.'', ''efg.'']. suffix ''.'' c"
    unfolding run by simp
  with run show ?thesis by simp
qed

section \<open>At least one chunk\<close>

lemma candidate_step_nonempty:
  "candidate st \<noteq> [] \<Longrightarrow> candidate (pack_step tokenize max_tokens d header ell i chunk st) \<noteq> []"
  by (auto simp: pack_step_def chunk_with_header_start)

lemma candidate_loop_nonempty:
  "candidate st \<noteq> [] \<Longrightarrow> candidate (pack_loop tokenize max_tokens d header ell i chunks st) \<noteq> []"
  by (induction chunks arbitrary: i st) (simp_all add: candidate_step_nonempty)

lemma first_step_nonempty:
  assumes "token_count tokenize ''...'' \<le> max_tokens"
  shows "candidate (pack_step tokenize max_tokens d None True i chunk (initial_state None)) \<noteq> []"
  using assms
  by (auto simp: pack_step_def initial_state_def start_candidate_def overflows_def
      chunk_with_header_def)

lemma packer_final_nonempty:
  assumes "token_count tokenize ''...'' \<le> max_tokens" and "chunks \<noteq> []"
  shows "output_chunks (packer_final tokenize chunks max_tokens d None True) \<noteq> []"
proof -
  from assms(2) obtain chunk rest where chunks: "chunks = chunk # rest" by (cases chunks) auto
  have "candidate (pack_loop tokenize max_tokens d None True 0 chunks (initial_state None)) \<noteq> []"
    unfolding chunks by (simp add: candidate_loop_nonempty first_step_nonempty [OF assms(1)])
  then show ?thesis
    by (simp add: packer_final_def seal_remaining_def)
qed

lemma chunk_on_delimiter_nonempty:
  assumes "token_count tokenize ''...'' \<le> max_tokens" and "d \<noteq> []"
  shows "\<exists>cs. fst (chunk_on_delimiter tokenize input_string max_tokens d) = Inr cs \<and> cs \<noteq> []"
  using assms
    packer_final_nonempty [where tokenize = tokenize and max_tokens = max_tokens and d = d
      and chunks = "split_from d [] input_string"]
  by (simp add: chunk_on_delimiter_cases Let_def split_from_nonempty)

subsection \<open>Rounding to a double is monotone\<close>

lemma round_half_even_bounds:
  "\<lfloor>x\<rfloor> \<le> round_half_even x" "round_half_even x \<le> \<lfloor>x\<rfloor> + 1"
  by (simp_all add: round_half_even_def Let_def)

lemma round_half_even_of_int: "round_half_even (of_int n) = n"
  by (simp add: round_half_even_def)

lemma round_half_even_mono:
  assumes "x \<le> y"
  shows "round_half_even x \<le> round_half_even y"
proof (cases "\<lfloor>x\<rfloor> = \<lfloor>y\<rfloor>")
  case True
  with assms show ?thesis
    by (auto simp: round_half_even_def Let_def)
next
  case False
  with assms have "\<lfloor>x\<rfloor> + 1 \<le> \<lfloor>y\<rfloor>"
    using floor_mono [of x y] by linarith
  with round_half_even_bounds(2) [of x] round_half_even_bounds(1) [of y] show ?thesis
    by linarith
qed

lemma round_half_even_minus: "round_half_even (- x) = - round_half_even x"
proof (cases "x = of_int \<lfloor>x\<rfloor>")
  case True
  then have "- x = of_int (- \<lfloor>x\<rfloor>)" by simp
  then have "round_half_even (- x) = - \<lfloor>x\<rfloor>"
    by (simp only: round_half_even_of_int)
  moreover have "round_half_even x = \<lfloor>x\<rfloor>"
    using True round_half_even_of_int [of "\<lfloor>x\<rfloor>"] by simp
  ultimately show ?thesis by simp
next
  case False
  then have c: "\<lceil>x\<rceil> = \<lfloor>x\<rfloor> + 1"
    by (simp add: ceiling_altdef)
  have f: "\<lfloor>- x\<rfloor> = - \<lfloor>x\<rfloor> - 1"
    using c by (simp add: floor_minus)
  have r: "0 < x - of_int \<lfloor>x\<rfloor>"
    using False by (smt (verit) of_int_floor_le)
  show ?thesis
    unfolding round_half_even_def Let_def f
    using r by (auto simp: algebra_simps)
qed

lemma binary_exponent_bounds:
  assumes "0 < x"
  shows "2 powi binary_exponent x \<le> x" and "x < 2 powi (binary_exponent x + 1)"
proof -
  have "2 powi binary_exponent x \<le> x \<and> x < 2 powi (binary_exponent x + 1)"
  proof (cases "1 \<le> x")
    case True
    define n where "n = \<lfloor>x\<rfloor>"
    have n: "1 \<le> n" using True by (simp add: n_def le_floor_iff)
    then have pos: "0 < n" by simp
    from bitlen_bounds [OF pos] have lo: "2 ^ nat (bitlen n - 1) \<le> n" and hi: "n < 2 ^ nat (bitlen n)"
      by simp_all
    have b1: "1 \<le> bitlen n" using pos by (simp add: bitlen_alt_def)
    have "(2::real) ^ nat (bitlen n - 1) \<le> of_int n"
      using lo by (metis of_int_le_iff of_int_numeral of_int_power)
    also have "\<dots> \<le> x" by (simp add: n_def)
    finally have A: "2 powi (bitlen n - 1) \<le> x"
      using b1 by (simp add: power_int_nonneg_exp)
    have "n + 1 \<le> 2 ^ nat (bitlen n)" using hi by simp
    then have "of_int (n + 1) \<le> (2::real) ^ nat (bitlen n)"
      by (metis of_int_le_iff of_int_numeral of_int_power)
    moreover have "x < of_int (n + 1)" by (simp add: n_def)
    ultimately have "x < (2::real) ^ nat (bitlen n)" by linarith
    then have B: "x < 2 powi (bitlen n - 1 + 1)"
      using b1 by (simp add: power_int_nonneg_exp)
    from A B True show ?thesis
      by (simp add: binary_exponent_def n_def)
  next
    case False
    define z where "z = 1 / x"
    have z1: "1 < z" using False assms by (simp add: z_def)
    define j where "j = \<lceil>z\<rceil> - 1"
    have j1: "1 \<le> j" using z1 by (simp add: j_def less_ceiling_iff)
    then have pos: "0 < j" by simp
    from bitlen_bounds [OF pos] have lo: "2 ^ nat (bitlen j - 1) \<le> j" and hi: "j < 2 ^ nat (bitlen j)"
      by simp_all
    have b1: "1 \<le> bitlen j" using pos by (simp add: bitlen_alt_def)
    have jz: "of_int j < z" by (simp add: j_def) linarith
    have zj: "z \<le> of_int (j + 1)" by (simp add: j_def)
    have "(2::real) ^ nat (bitlen j - 1) \<le> of_int j"
      using lo by (metis of_int_le_iff of_int_numeral of_int_power)
    with jz have lz: "(2::real) ^ nat (bitlen j - 1) < z" by linarith
    have "j + 1 \<le> 2 ^ nat (bitlen j)" using hi by simp
    then have "of_int (j + 1) \<le> (2::real) ^ nat (bitlen j)"
      by (metis of_int_le_iff of_int_numeral of_int_power)
    with zj have uz: "z \<le> (2::real) ^ nat (bitlen j)" by linarith
    have x: "x = 1 / z" using assms by (simp add: z_def)
    have A: "2 powi (- bitlen j) \<le> x"
    proof -
      have "1 / (2::real) ^ nat (bitlen j) \<le> 1 / z"
        using uz z1 by (intro divide_left_mono) simp_all
      then show ?thesis
        using b1 by (simp add: x power_int_minus_divide power_int_nonneg_exp)
    qed
    have B: "x < 2 powi (- bitlen j + 1)"
    proof -
      have "1 / z < 1 / (2::real) ^ nat (bitlen j - 1)"
        using lz z1 by (intro divide_strict_left_mono mult_pos_pos) simp_all
      moreover have "2 powi (- bitlen j + 1) = 1 / (2::real) ^ nat (bitlen j - 1)"
        using b1 power_int_minus_divide [of "2::real" "bitlen j - 1"]
        by (simp add: power_int_nonneg_exp)
      ultimately show ?thesis by (simp add: x)
    qed
    from A B False show ?thesis
      by (simp add: binary_exponent_def z_def j_def)
  qed
  then show "2 powi binary_exponent x \<le> x" and "x < 2 powi (binary_exponent x + 1)"
    by simp_all
qed

lemma binary_exponent_mono:
  assumes "0 < x" "x \<le> y"
  shows "binary_exponent x \<le> binary_exponent y"
proof (rule ccontr)
  assume "\<not> binary_exponent x \<le> binary_exponent y"
  then have "binary_exponent y + 1 \<le> binary_exponent x" by simp
  then have "(2::real) powi (binary_exponent y + 1) \<le> 2 powi binary_exponent x"
    by (intro power_int_increasing) simp_all
  moreover have "y < 2 powi (binary_exponent y + 1)"
    using assms by (intro binary_exponent_bounds) simp
  moreover have "2 powi binary_exponent x \<le> x"
    using assms by (intro binary_exponent_bounds)
  ultimately show False using assms by linarith
qed

lemma round_double_minus: "round_double (- x) = - round_double x"
  by (simp add: round_double_def ulp_exponent_def round_half_even_minus)

lemma round_double_0: "round_double 0 = 0"
  by (simp add: round_double_def)

lemma round_double_nonneg:
  assumes "0 \<le> x"
  shows "0 \<le> round_double x"
proof -
  have "0 \<le> x / 2 powi ulp_exponent x" using assms by simp
  then have "round_half_even 0 \<le> round_half_even (x / 2 powi ulp_exponent x)"
    by (rule round_half_even_mono)
  then have "0 \<le> round_half_even (x / 2 powi ulp_exponent x)"
    using round_half_even_of_int [of 0] by simp
  then show ?thesis
    by (simp add: round_double_def)
qed

lemma round_double_le_power:
  assumes "0 < x" "x \<le> 2 powi b" "ulp_exponent x \<le> b"
  shows "round_double x \<le> 2 powi b"
proof -
  define q where "q = ulp_exponent x"
  have p: "(2::real) powi b = 2 powi (b - q) * 2 powi q"
    by (simp flip: power_int_add)
  have i: "(2::real) powi (b - q) = of_int (2 ^ nat (b - q))"
    using assms(3) by (simp add: q_def power_int_nonneg_exp)
  have "x / 2 powi q \<le> 2 powi (b - q)"
    using assms(2) by (simp add: p field_simps)
  then have "round_half_even (x / 2 powi q) \<le> round_half_even (of_int (2 ^ nat (b - q)))"
    unfolding i by (rule round_half_even_mono)
  then have "round_half_even (x / 2 powi q) \<le> 2 ^ nat (b - q)"
    by (simp only: round_half_even_of_int)
  then have "of_int (round_half_even (x / 2 powi q)) \<le> (2::real) powi (b - q)"
    unfolding i by (simp only: of_int_le_iff)
  then have "of_int (round_half_even (x / 2 powi q)) * 2 powi q \<le> (2::real) powi (b - q) * 2 powi q"
    by (intro mult_right_mono) simp_all
  moreover have "round_double x = of_int (round_half_even (x / 2 powi q)) * 2 powi q"
    using assms(1) by (simp add: round_double_def q_def)
  ultimately show ?thesis
    using p by linarith
qed

lemma power_le_round_double:
  assumes "0 < x" "2 powi b \<le> x" "ulp_exponent x \<le> b"
  shows "2 powi b \<le> round_double x"
proof -
  define q where "q = ulp_exponent x"
  have p: "(2::real) powi b = 2 powi (b - q) * 2 powi q"
    by (simp flip: power_int_add)
  have i: "(2::real) powi (b - q) = of_int (2 ^ nat (b - q))"
    using assms(3) by (simp add: q_def power_int_nonneg_exp)
  have "2 powi (b - q) \<le> x / 2 powi q"
    using assms(2) by (simp add: p field_simps)
  then have "round_half_even (of_int (2 ^ nat (b - q))) \<le> round_half_even (x / 2 powi q)"
    unfolding i by (rule round_half_even_mono)
  then have "2 ^ nat (b - q) \<le> round_half_even (x / 2 powi q)"
    by (simp only: round_half_even_of_int)
  then have "(2::real) powi (b - q) \<le> of_int (round_half_even (x / 2 powi q))"
    unfolding i by (simp only: of_int_le_iff)
  then have "(2::real) powi (b - q) * 2 powi q \<le> of_int (round_half_even (x / 2 powi q)) * 2 powi q"
    by (intro mult_right_mono) simp_all
  moreover have "round_double x = of_int (round_half_even (x / 2 powi q)) * 2 powi q"
    using assms(1) by (simp add: round_double_def q_def)
  ultimately show ?thesis
    using p by linarith
qed

lemma round_double_mono_pos:
  assumes "0 < x" "x \<le> y"
  shows "round_double x \<le> round_double y"
proof -
  have y: "0 < y" using assms by simp
  have e: "binary_exponent \<bar>x\<bar> \<le> binary_exponent \<bar>y\<bar>"
    using assms by (simp add: binary_exponent_mono)
  then have q: "ulp_exponent x \<le> ulp_exponent y"
    by (simp add: ulp_exponent_def)
  show ?thesis
  proof (cases "ulp_exponent x = ulp_exponent y")
    case True
    have "x / 2 powi ulp_exponent y \<le> y / 2 powi ulp_exponent y"
      using assms(2) by (simp add: divide_right_mono)
    then have "round_half_even (x / 2 powi ulp_exponent y) \<le> round_half_even (y / 2 powi ulp_exponent y)"
      by (rule round_half_even_mono)
    then have "of_int (round_half_even (x / 2 powi ulp_exponent y)) * 2 powi ulp_exponent y \<le>
               (of_int (round_half_even (y / 2 powi ulp_exponent y)) * 2 powi ulp_exponent y :: real)"
      by (intro mult_right_mono) simp_all
    then show ?thesis
      using assms(1) y by (simp add: round_double_def True)
  next
    case False
    with q have lt: "ulp_exponent x < ulp_exponent y" by simp
    define b where "b = binary_exponent \<bar>y\<bar>"
    have ex: "binary_exponent \<bar>x\<bar> + 1 \<le> b" and qy: "ulp_exponent y \<le> b" and qx: "ulp_exponent x \<le> b"
      using lt by (auto simp: ulp_exponent_def b_def)
    have "x < 2 powi (binary_exponent \<bar>x\<bar> + 1)"
      using binary_exponent_bounds(2) [of "\<bar>x\<bar>"] assms(1) by simp
    also have "\<dots> \<le> 2 powi b"
      using ex by (intro power_int_increasing) simp_all
    finally have "x \<le> 2 powi b" by simp
    then have "round_double x \<le> 2 powi b"
      using assms(1) qx by (intro round_double_le_power)
    moreover have "2 powi b \<le> y"
      using binary_exponent_bounds(1) [of "\<bar>y\<bar>"] y by (simp add: b_def)
    then have "2 powi b \<le> round_double y"
      using y qy by (intro power_le_round_double)
    ultimately show ?thesis by linarith
  qed
qed

lemma round_double_mono:
  assumes "x \<le> y"
  shows "round_double x \<le> round_double y"
proof -
  consider "0 < x" | "x \<le> 0" "0 \<le> y" | "y < 0" by linarith
  then show ?thesis
  proof cases
    case 1
    then show ?thesis using assms by (rule round_double_mono_pos)
  next
    case 2
    have "0 \<le> round_double (- x)" using 2(1) by (intro round_double_nonneg) simp
    then have "round_double x \<le> 0" by (simp add: round_double_minus)
    moreover have "0 \<le> round_double y" using 2(2) by (rule round_double_nonneg)
    ultimately show ?thesis by linarith
  next
    case 3
    then have "0 < - y" "- y \<le> - x" using assms by simp_all
    then have "round_double (- y) \<le> round_double (- x)" by (rule round_double_mono_pos)
    then show ?thesis by (simp add: round_double_minus)
  qed
qed

lemma round_double_1: "round_double 1 = 1"
  by code_simp

lemma round_double_minus_1: "round_double (- 1) = - 1"
  by code_simp


lemma round_double_dyadic:
  assumes m: "\<bar>m\<bar> < 2 ^ 53" and e: "- 1074 \<le> e"
  shows "round_double (of_int m * 2 powi e) = of_int m * 2 powi e"
proof (cases "m = 0")
  case True
  then show ?thesis by (simp add: round_double_def)
next
  case False
  define x :: real where "x = of_int m * 2 powi e"
  define E where "E = binary_exponent \<bar>x\<bar>"
  define q where "q = ulp_exponent x"
  have ax: "\<bar>x\<bar> = of_int \<bar>m\<bar> * 2 powi e"
    by (simp add: x_def abs_mult)
  have pos: "0 < \<bar>x\<bar>" using False by (simp add: x_def)
  have "of_int \<bar>m\<bar> < (2::real) ^ 53"
    using m by (metis of_int_less_iff of_int_numeral of_int_power)
  then have "\<bar>x\<bar> < 2 ^ 53 * 2 powi e"
    unfolding ax by (intro mult_strict_right_mono) simp_all
  also have "\<dots> = 2 powi (53 + e)"
    by (simp add: power_int_add)
  finally have up: "\<bar>x\<bar> < 2 powi (53 + e)" .
  have "E < 53 + e"
  proof (rule ccontr)
    assume "\<not> E < 53 + e"
    then have "(2::real) powi (53 + e) \<le> 2 powi E"
      by (intro power_int_increasing) simp_all
    moreover have "2 powi E \<le> \<bar>x\<bar>"
      unfolding E_def using pos by (rule binary_exponent_bounds)
    ultimately show False using up by linarith
  qed
  then have qe: "q \<le> e"
    using e by (simp add: q_def ulp_exponent_def E_def)
  have "x / 2 powi q = of_int m * 2 powi (e - q)"
    by (simp add: x_def power_int_diff)
  also have "\<dots> = of_int (m * 2 ^ nat (e - q))"
    using qe by (simp add: power_int_nonneg_exp)
  finally have "round_half_even (x / 2 powi q) = m * 2 ^ nat (e - q)"
    by (simp only: round_half_even_of_int)
  then have "of_int (round_half_even (x / 2 powi q)) * 2 powi q = of_int m * 2 powi (e - q) * 2 powi q"
    using qe by (simp add: power_int_nonneg_exp)
  also have "\<dots> = x"
    by (simp add: x_def power_int_diff)
  finally show ?thesis
    using pos by (simp add: round_double_def flip: x_def q_def)
qed

lemma py_int_floor: "0 \<le> x \<Longrightarrow> py_int x = \<lfloor>x\<rfloor>"
  by (simp add: py_int_def)

lemma round_double_unit:
  assumes "0 \<le> detail" "detail \<le> 1"
  shows "0 \<le> round_double detail" and "round_double detail \<le> 1"
  using round_double_mono [OF assms(1)] round_double_mono [OF assms(2)]
  by (simp_all add: round_double_0 round_double_1)

lemma interpolate_floor:
  assumes "0 \<le> detail" "detail \<le> 1"
  shows "interpolate_num_chunks detail max_chunks = rounded_num_chunks detail max_chunks"
proof -
  define F where "F = round_double (of_int (int max_chunks - 1))"
  define d where "d = round_double detail"
  have d: "0 \<le> d" "d \<le> 1"
    unfolding d_def using assms by (rule round_double_unit)+
  have "- 1 \<le> (of_int (int max_chunks - 1) :: real)" by simp
  then have "round_double (- 1) \<le> F"
    unfolding F_def by (rule round_double_mono)
  then have F: "- 1 \<le> F" by (simp add: round_double_minus_1)
  have "- 1 \<le> d * F"
  proof (cases "0 \<le> F")
    case True
    then have "0 \<le> d * F" using d(1) by simp
    then show ?thesis by simp
  next
    case False
    then have "d * (- F) \<le> 1 * 1"
      using d F by (intro mult_mono) simp_all
    then show ?thesis by simp
  qed
  then have "round_double (- 1) \<le> round_double (d * F)"
    by (rule round_double_mono)
  then have "0 \<le> 1 + round_double (d * F)"
    by (simp add: round_double_minus_1)
  then have "0 \<le> round_double (1 + round_double (d * F))"
    by (rule round_double_nonneg)
  then show ?thesis
    by (simp add: interpolate_num_chunks_def rounded_num_chunks_def float_add_def float_mul_def
        float_of_int_def round_double_1 py_int_floor F_def d_def)
qed

lemma rounded_num_chunks_mono:
  assumes "0 \<le> d1" "d1 \<le> d2" "1 \<le> max_chunks"
  shows "rounded_num_chunks d1 max_chunks \<le> rounded_num_chunks d2 max_chunks"
proof -
  define F where "F = round_double (of_int (int max_chunks - 1))"
  have "(0::real) \<le> of_int (int max_chunks - 1)" using assms(3) by simp
  then have F: "0 \<le> F"
    unfolding F_def by (rule round_double_nonneg)
  have "round_double d1 \<le> round_double d2"
    using assms(2) by (rule round_double_mono)
  then have "round_double d1 * F \<le> round_double d2 * F"
    using F by (rule mult_right_mono)
  then have "round_double (round_double d1 * F) \<le> round_double (round_double d2 * F)"
    by (rule round_double_mono)
  then have "round_double (1 + round_double (round_double d1 * F)) \<le>
             round_double (1 + round_double (round_double d2 * F))"
    by (intro round_double_mono) simp
  then show ?thesis
    unfolding rounded_num_chunks_def F_def by (rule floor_mono)
qed


lemma interpolate_mono:
  assumes "0 \<le> d1" "d1 \<le> d2" "d2 \<le> 1" "1 \<le> max_chunks"
  shows "interpolate_num_chunks d1 max_chunks \<le> interpolate_num_chunks d2 max_chunks"
proof -
  have "d1 \<le> 1" "0 \<le> d2" using assms by simp_all
  then show ?thesis
    using interpolate_floor [of d1 max_chunks] interpolate_floor [of d2 max_chunks]
      rounded_num_chunks_mono [OF assms(1,2,4)] assms
    by simp
qed

lemma round_double_of_int:
  assumes "\<bar>n\<bar> < 2 ^ 53"
  shows "round_double (of_int n) = of_int n"
  using round_double_dyadic [OF assms, of 0] by simp

lemma interpolate_at_ends:
  shows "interpolate_num_chunks 0 max_chunks = 1"
    and "1 \<le> max_chunks \<Longrightarrow> max_chunks < 2 ^ 53 \<Longrightarrow>
         interpolate_num_chunks 1 max_chunks = int max_chunks"
proof -
  show "interpolate_num_chunks 0 max_chunks = 1"
    by (simp add: interpolate_num_chunks_def float_add_def float_mul_def float_of_int_def
        round_double_0 round_double_1 py_int_def)
  assume m: "1 \<le> max_chunks" "max_chunks < 2 ^ 53"
  have i: "int max_chunks < 2 ^ 53"
    using m(2) by (metis of_nat_less_iff of_nat_numeral of_nat_power)
  then have a: "\<bar>int max_chunks - 1\<bar> < 2 ^ 53" and b: "\<bar>int max_chunks\<bar> < 2 ^ 53"
    using m(1) by simp_all
  have F: "round_double (of_int (int max_chunks - 1)) = of_int (int max_chunks - 1)"
    using a by (rule round_double_of_int)
  have "1 + (of_int (int max_chunks - 1) :: real) = of_int (int max_chunks)" by simp
  then have S: "round_double (1 + of_int (int max_chunks - 1)) = of_int (int max_chunks)"
    using round_double_of_int [OF b] by (simp only:)
  show "interpolate_num_chunks 1 max_chunks = int max_chunks"
    unfolding interpolate_num_chunks_def Let_def float_add_def float_mul_def float_of_int_def
      of_int_1 round_double_1 F mult_1 S
    by (simp add: py_int_def)
qed

lemma double_range_not_reached:
  assumes "0 \<le> detail" "detail \<le> 1" and m: "max_chunks \<le> 2 ^ 63"
  shows "\<bar>float_of_int (int max_chunks - 1)\<bar> \<le> 2 ^ 63"
    and "\<bar>float_mul (round_double detail) (float_of_int (int max_chunks - 1))\<bar> \<le> 2 ^ 63"
    and "\<bar>float_add (float_of_int 1)
           (float_mul (round_double detail) (float_of_int (int max_chunks - 1)))\<bar> \<le> 2 ^ 64"
proof -
  define F where "F = round_double (of_int (int max_chunks - 1))"
  define d where "d = round_double detail"
  have d: "0 \<le> d" "d \<le> 1"
    unfolding d_def using assms(1,2) by (rule round_double_unit)+
  have r63: "round_double (2 ^ 63) = 2 ^ 63" and r64: "round_double (2 ^ 64) = 2 ^ 64"
    by code_simp+
  have "int max_chunks \<le> 2 ^ 63"
    using m by (metis of_nat_le_iff of_nat_numeral of_nat_power)
  then have "int max_chunks - 1 \<le> 2 ^ 63" by simp
  then have "(of_int (int max_chunks - 1) :: real) \<le> of_int (2 ^ 63)"
    by (simp only: of_int_le_iff)
  then have "(of_int (int max_chunks - 1) :: real) \<le> 2 ^ 63" by simp
  then have "F \<le> round_double (2 ^ 63)"
    unfolding F_def by (rule round_double_mono)
  then have Fhi: "F \<le> 2 ^ 63" by (simp only: r63)
  have "- 1 \<le> (of_int (int max_chunks - 1) :: real)" by simp
  then have "round_double (- 1) \<le> F"
    unfolding F_def by (rule round_double_mono)
  then have Flo: "- 1 \<le> F" by (simp add: round_double_minus_1)
  have plo: "- 1 \<le> d * F"
  proof (cases "0 \<le> F")
    case True
    then have "0 \<le> d * F" using d(1) by simp
    then show ?thesis by simp
  next
    case False
    then have "d * (- F) \<le> 1 * 1"
      using d Flo by (intro mult_mono) simp_all
    then show ?thesis by simp
  qed
  have phi: "d * F \<le> 2 ^ 63"
  proof (cases "0 \<le> F")
    case True
    then have "d * F \<le> 1 * F" using d by (intro mult_right_mono) simp_all
    then show ?thesis using Fhi by simp
  next
    case False
    then have "d * F \<le> 0" using d(1) by (simp add: mult_nonneg_nonpos)
    then show ?thesis by (smt (verit) zero_le_power)
  qed
  define P where "P = round_double (d * F)"
  have "round_double (- 1) \<le> P"
    unfolding P_def using plo by (rule round_double_mono)
  then have Plo: "- 1 \<le> P" by (simp only: round_double_minus_1)
  have "P \<le> round_double (2 ^ 63)"
    unfolding P_def using phi by (rule round_double_mono)
  then have Phi: "P \<le> 2 ^ 63" by (simp only: r63)
  note P = Plo Phi
  have "round_double 0 \<le> round_double (1 + P)"
    using Plo by (intro round_double_mono) simp
  then have Slo: "0 \<le> round_double (1 + P)" by (simp only: round_double_0)
  have "round_double (1 + P) \<le> round_double (2 ^ 64)"
    using Phi by (intro round_double_mono) simp
  then have Shi: "round_double (1 + P) \<le> 2 ^ 64" by (simp only: r64)
  note S = Slo Shi
  show "\<bar>float_of_int (int max_chunks - 1)\<bar> \<le> 2 ^ 63"
    unfolding float_of_int_def F_def [symmetric]
    using Flo Fhi by (simp add: abs_le_iff)
  show "\<bar>float_mul (round_double detail) (float_of_int (int max_chunks - 1))\<bar> \<le> 2 ^ 63"
    unfolding float_mul_def float_of_int_def F_def [symmetric] d_def [symmetric] P_def [symmetric]
    using P by (simp add: abs_le_iff)
  show "\<bar>float_add (float_of_int 1)
           (float_mul (round_double detail) (float_of_int (int max_chunks - 1)))\<bar> \<le> 2 ^ 64"
    unfolding float_add_def float_mul_def float_of_int_def of_int_1 round_double_1
      F_def [symmetric] d_def [symmetric] P_def [symmetric]
    using S by (simp add: abs_le_iff)
qed

lemma summarize_loop_error:
  "summarize_loop client model sys recursively acc chunks = (Inl e, evs) \<Longrightarrow> \<exists>m. e = ServiceError m"
  by (induction chunks arbitrary: acc evs)
     (auto simp: get_chat_completion_def Let_def split: sum.splits prod.splits)

lemma summarize_text_chunks_error:
  "fst (summarize_text_chunks tokenize client model addl recursively verbose text_chunks) = Inl e
   \<Longrightarrow> \<exists>m. e = ServiceError m"
  by (auto simp: summarize_text_chunks_def Let_def split: sum.splits prod.splits
           dest: summarize_loop_error)


lemma summarize_run:
  assumes "0 \<le> detail" "detail \<le> 1"
    and probe: "chunk_on_delimiter tokenize input_string minimum_chunk_size d = (Inr probe, evs1)"
    and nz: "interpolate_num_chunks detail (length probe) \<noteq> 0"
    and real_pass: "chunk_on_delimiter tokenize input_string
               (max minimum_chunk_size
                  (int (length (tokenize input_string)) div interpolate_num_chunks detail (length probe)))
               d = (Inr text_chunks, evs2)"
  shows "summarize tokenize client input_string detail model additional_instructions
           minimum_chunk_size d recursively verbose =
         (fst (summarize_text_chunks tokenize client model additional_instructions recursively
                 verbose text_chunks),
          evs1 @ evs2 @
          snd (summarize_text_chunks tokenize client model additional_instructions recursively
                 verbose text_chunks))"
  using assms
  by (simp add: summarize_def adjust_chunk_size_def Let_def split: prod.splits)

lemma summarize_zero:
  assumes "0 \<le> detail" "detail \<le> 1"
    and probe: "chunk_on_delimiter tokenize input_string minimum_chunk_size d = (Inr probe, evs1)"
    and z: "interpolate_num_chunks detail (length probe) = 0"
  shows "summarize tokenize client input_string detail model additional_instructions
           minimum_chunk_size d recursively verbose = (Inl ZeroDivisionError, evs1)"
  using assms
  by (simp add: summarize_def adjust_chunk_size_def Let_def)



section \<open>The detail interpolation\<close>

text \<open>
  C8, as the claim states it, fails. With a minimum chunk size of 0 the one segment of
  \<open>hello\<close> overflows and no ellipsis marker fits, so the probe returns no chunk:
  \<open>max_chunks = 0\<close>, and the interpolated count is 1 at detail 0 and 0 at detail 1.
\<close>

theorem num_chunks_decreases_on_empty_probe:
  "chunk_on_delimiter char_tokenize ''hello'' 0 ''.'' = (Inr [], [Chunk_overflow_warning]) \<and>
   interpolate_num_chunks 0 (length ([] :: string list)) = 1 \<and>
   interpolate_num_chunks 1 (length ([] :: string list)) = 0 \<and>
   \<not> interpolate_num_chunks 0 (length ([] :: string list)) \<le>
       interpolate_num_chunks 1 (length ([] :: string list))"
  by code_simp

text \<open>
  C8, amended. For a fixed text, minimum chunk size and delimiter, the chunk count
  interpolated by \<^verbatim>\<open>summarize\<close> from the probe does not decrease when \<open>detail\<close> grows
  within [0,1], provided the probe returned at least one chunk (\<open>max_chunks \<ge> 1\<close>). It
  does return one whenever the ellipsis marker fits the minimum chunk size.
\<close>

theorem num_chunks_monotone_in_detail:
  assumes probe: "chunk_on_delimiter tokenize input_string minimum_chunk_size d = (Inr probe, evs)"
    and range: "0 \<le> detail1" "detail1 \<le> detail2" "detail2 \<le> 1"
  shows "(probe \<noteq> [] \<longrightarrow>
            interpolate_num_chunks detail1 (length probe) \<le>
            interpolate_num_chunks detail2 (length probe)) \<and>
         (token_count tokenize ''...'' \<le> minimum_chunk_size \<longrightarrow> probe \<noteq> [])"
proof (intro conjI impI)
  assume "probe \<noteq> []"
  then have "1 \<le> length probe" by (cases probe) auto
  with range show "interpolate_num_chunks detail1 (length probe) \<le>
                   interpolate_num_chunks detail2 (length probe)"
    by (intro interpolate_mono)
next
  assume fits: "token_count tokenize ''...'' \<le> minimum_chunk_size"
  from chunk_on_delimiter_delimiter [OF probe] have "d \<noteq> []" .
  from chunk_on_delimiter_nonempty [OF fits this, of input_string] probe show "probe \<noteq> []"
    by auto
qed

theorem num_chunks_monotone_in_detail_witness:
  "chunk_on_delimiter char_tokenize ''ab.cd.ef'' 3 ''.'' = (Inr [''ab.'', ''cd.'', ''ef.''], []) \<and>
   [''ab.'', ''cd.'', ''ef.''] \<noteq> [] \<and>
   interpolate_num_chunks (1/4) 3 = 1 \<and> interpolate_num_chunks (3/4) 3 = 2 \<and>
   interpolate_num_chunks (1/4) (length [''ab.'', ''cd.'', ''ef.'']) \<le>
     interpolate_num_chunks (3/4) (length [''ab.'', ''cd.'', ''ef.''])"
proof -
  have probe: "chunk_on_delimiter char_tokenize ''ab.cd.ef'' 3 ''.'' =
                 (Inr [''ab.'', ''cd.'', ''ef.''], [])"
    by code_simp
  have ne: "[''ab.'', ''cd.'', ''ef.''] \<noteq> []" by simp
  have lo: "interpolate_num_chunks (1/4) 3 = 1" and hi: "interpolate_num_chunks (3/4) 3 = 2"
    by code_simp+
  have range: "(0::real) \<le> 1/4" "(1/4::real) \<le> 3/4" "(3/4::real) \<le> 1" by simp_all
  have "interpolate_num_chunks (1/4) (length [''ab.'', ''cd.'', ''ef.'']) \<le>
        interpolate_num_chunks (3/4) (length [''ab.'', ''cd.'', ''ef.''])"
    by (rule num_chunks_monotone_in_detail [OF probe range, THEN conjunct1, THEN mp, OF ne])
  with probe ne lo hi show ?thesis by (intro conjI)
qed

text \<open>
  C3, as the claim states it, fails: the code evaluates the interpolation in double
  precision, and the floor of the rounded value can differ from the floor of the exact
  one. A text of 11 segments probed at a minimum chunk size of 1 gives \<open>max_chunks = 11\<close>;
  at the double that the literal \<^verbatim>\<open>0.3\<close> denotes the product with 10 rounds up to 3, so
  the code computes 4 chunks where the exact formula gives 3, and a chunk size of 5 where
  the formula gives 7. At 0.58 with 51 chunks the code computes 29 and the formula 30.
\<close>

theorem num_chunks_not_exact_floor:
  "chunk_on_delimiter char_tokenize ''a.b.c.d.e.f.g.h.i.j.k'' 1 ''.'' =
     (Inr [''a.'', ''b.'', ''c.'', ''d.'', ''e.'', ''f.'', ''g.'', ''h.'', ''i.'', ''j.'', ''k.''], []) \<and>
   round_double (3/10) = 5404319552844595 / 18014398509481984 \<and>
   interpolate_num_chunks (5404319552844595 / 18014398509481984) 11 = 4 \<and>
   spec_num_chunks (5404319552844595 / 18014398509481984) 11 = 3 \<and>
   adjust_chunk_size 1 (length (char_tokenize ''a.b.c.d.e.f.g.h.i.j.k''))
     (interpolate_num_chunks (5404319552844595 / 18014398509481984) 11) = Inr 5 \<and>
   spec_chunk_size 1 (length (char_tokenize ''a.b.c.d.e.f.g.h.i.j.k''))
     (spec_num_chunks (5404319552844595 / 18014398509481984) 11) = 7 \<and>
   interpolate_num_chunks (58/100) 51 = 29 \<and>
   spec_num_chunks (58/100) 51 = 30"
  by code_simp

text \<open>
  C3, amended. For detail in [0,1], with \<open>max_chunks\<close> the length of the probe at
  \<open>minimum_chunk_size\<close> and \<open>min_chunks = 1\<close>: \<open>num_chunks\<close> is the floor of
  \<open>min_chunks + detail * (max_chunks - min_chunks)\<close> evaluated in double precision (the
  difference converted to a double, the product and the sum each rounded to the nearest
  double); where that count is not zero the chunk size is
  \<open>max(minimum_chunk_size, document_token_count // num_chunks)\<close>, the text is chunked again
  at that size with the same delimiter, and those chunks are what \<^verbatim>\<open>summarize\<close> goes
  on with; where it is zero the division raises.
\<close>

theorem summarize_chunk_size_by_interpolation:
  assumes lo: "0 \<le> detail" and hi: "detail \<le> 1"
    and probe: "chunk_on_delimiter tokenize input_string minimum_chunk_size d = (Inr probe, evs1)"
  shows "interpolate_num_chunks detail (length probe) = rounded_num_chunks detail (length probe) \<and>
    (if rounded_num_chunks detail (length probe) = 0
     then summarize tokenize client input_string detail model additional_instructions
            minimum_chunk_size d recursively verbose = (Inl ZeroDivisionError, evs1)
     else adjust_chunk_size minimum_chunk_size (length (tokenize input_string))
            (interpolate_num_chunks detail (length probe)) =
            Inr (spec_chunk_size minimum_chunk_size (length (tokenize input_string))
                   (rounded_num_chunks detail (length probe))) \<and>
          (\<exists>text_chunks evs2.
             chunk_on_delimiter tokenize input_string
               (spec_chunk_size minimum_chunk_size (length (tokenize input_string))
                  (rounded_num_chunks detail (length probe))) d = (Inr text_chunks, evs2) \<and>
             summarize tokenize client input_string detail model additional_instructions
               minimum_chunk_size d recursively verbose =
             (fst (summarize_text_chunks tokenize client model additional_instructions recursively
                     verbose text_chunks),
              evs1 @ evs2 @
              snd (summarize_text_chunks tokenize client model additional_instructions recursively
                     verbose text_chunks))))"
proof -
  have n: "interpolate_num_chunks detail (length probe) = rounded_num_chunks detail (length probe)"
    by (rule interpolate_floor [OF lo hi])
  show ?thesis
  proof (cases "rounded_num_chunks detail (length probe) = 0")
    case True
    then show ?thesis
      using n summarize_zero [OF lo hi probe] by simp
  next
    case False
    from chunk_on_delimiter_delimiter [OF probe] have "d \<noteq> []" .
    from chunk_on_delimiter_total [OF this] obtain text_chunks evs2 where
      pass: "chunk_on_delimiter tokenize input_string
               (spec_chunk_size minimum_chunk_size (length (tokenize input_string))
                  (rounded_num_chunks detail (length probe))) d = (Inr text_chunks, evs2)"
      by blast
    have "summarize tokenize client input_string detail model additional_instructions
               minimum_chunk_size d recursively verbose =
             (fst (summarize_text_chunks tokenize client model additional_instructions recursively
                     verbose text_chunks),
              evs1 @ evs2 @
              snd (summarize_text_chunks tokenize client model additional_instructions recursively
                     verbose text_chunks))"
      using False n pass
      by (intro summarize_run [OF lo hi probe]) (simp_all add: spec_chunk_size_def)
    with pass False n show ?thesis
      by (auto simp: adjust_chunk_size_def spec_chunk_size_def)
  qed
qed

theorem summarize_chunk_size_by_interpolation_witness:
  "chunk_on_delimiter char_tokenize ''a.b.c.d'' 1 ''.'' = (Inr [''a.'', ''b.'', ''c.'', ''d.''], []) \<and>
   interpolate_num_chunks (1/2) 4 = 2 \<and> rounded_num_chunks (1/2) 4 = 2 \<and>
   spec_chunk_size 1 (length (char_tokenize ''a.b.c.d'')) 2 = 3 \<and>
   chunk_on_delimiter char_tokenize ''a.b.c.d'' 3 ''.'' = (Inr [''a.b.'', ''c.d.''], []) \<and>
   summarize char_tokenize tail_client ''a.b.c.d'' (1/2) ''m'' None 1 ''.'' False False =
     (fst (summarize_text_chunks char_tokenize tail_client ''m'' None False False [''a.b.'', ''c.d.'']),
      snd (summarize_text_chunks char_tokenize tail_client ''m'' None False False [''a.b.'', ''c.d.'']))"
proof -
  have probe: "chunk_on_delimiter char_tokenize ''a.b.c.d'' 1 ''.'' =
                 (Inr [''a.'', ''b.'', ''c.'', ''d.''], [])"
    by code_simp
  have n: "rounded_num_chunks (1/2) 4 = 2"
    by code_simp
  have size: "spec_chunk_size 1 (length (char_tokenize ''a.b.c.d'')) 2 = 3"
    by (simp add: spec_chunk_size_def char_tokenize_def)
  have pass: "chunk_on_delimiter char_tokenize ''a.b.c.d'' 3 ''.'' = (Inr [''a.b.'', ''c.d.''], [])"
    by code_simp
  have range: "(0::real) \<le> 1/2" "(1/2::real) \<le> 1" by simp_all
  have len: "length [''a.'', ''b.'', ''c.'', ''d.''] = 4" by simp
  note inst = summarize_chunk_size_by_interpolation
    [OF range probe, of tail_client "''m''" None False False, unfolded len]
  from inst [THEN conjunct1] n have i: "interpolate_num_chunks (1/2) 4 = 2"
    by (simp only:)
  have nz: "rounded_num_chunks (1/2) 4 \<noteq> 0"
    by (simp add: n)
  from inst [THEN conjunct2] nz obtain text_chunks evs2 where
    again: "chunk_on_delimiter char_tokenize ''a.b.c.d''
              (spec_chunk_size 1 (length (char_tokenize ''a.b.c.d'')) (rounded_num_chunks (1/2) 4)) ''.'' =
            (Inr text_chunks, evs2)"
    and result: "summarize char_tokenize tail_client ''a.b.c.d'' (1/2) ''m'' None 1 ''.'' False False =
       (fst (summarize_text_chunks char_tokenize tail_client ''m'' None False False text_chunks),
        [] @ evs2 @
        snd (summarize_text_chunks char_tokenize tail_client ''m'' None False False text_chunks))"
    by (simp only: if_False) blast
  from again have "text_chunks = [''a.b.'', ''c.d.''] \<and> evs2 = []"
    by (simp only: n size pass prod.inject sum.inject)
  with result have
    "summarize char_tokenize tail_client ''a.b.c.d'' (1/2) ''m'' None 1 ''.'' False False =
     (fst (summarize_text_chunks char_tokenize tail_client ''m'' None False False [''a.b.'', ''c.d.'']),
      snd (summarize_text_chunks char_tokenize tail_client ''m'' None False False [''a.b.'', ''c.d.'']))"
    by simp
  with probe i n size pass show ?thesis by (intro conjI)
qed

section \<open>The precondition on detail\<close>

text \<open>
  C7. With \<open>detail\<close> outside [0,1], \<^verbatim>\<open>summarize\<close> raises AssertionError and nothing
  else happens: no warning of a chunking pass is printed and no request is sent, whatever
  the text, the tokenizer and the service. With \<open>detail\<close> in [0,1] the result is never
  AssertionError and the run starts with the probing pass of the chunker.
\<close>

theorem detail_precondition:
  "(\<not> (0 \<le> detail \<and> detail \<le> 1) \<longrightarrow>
      summarize tokenize client input_string detail model additional_instructions
        minimum_chunk_size d recursively verbose = (Inl AssertionError, [])) \<and>
   (0 \<le> detail \<and> detail \<le> 1 \<longrightarrow>
      fst (summarize tokenize client input_string detail model additional_instructions
             minimum_chunk_size d recursively verbose) \<noteq> Inl AssertionError \<and>
      prefix (snd (chunk_on_delimiter tokenize input_string minimum_chunk_size d))
        (snd (summarize tokenize client input_string detail model additional_instructions
                minimum_chunk_size d recursively verbose)))"
proof (intro conjI impI)
  assume "\<not> (0 \<le> detail \<and> detail \<le> 1)"
  then show "summarize tokenize client input_string detail model additional_instructions
        minimum_chunk_size d recursively verbose = (Inl AssertionError, [])"
    by (simp add: summarize_def)
next
  assume range: "0 \<le> detail \<and> detail \<le> 1"
  then have lo: "0 \<le> detail" and hi: "detail \<le> 1" by simp_all
  let ?S = "summarize tokenize client input_string detail model additional_instructions
             minimum_chunk_size d recursively verbose"
  obtain r evs1 where probe: "chunk_on_delimiter tokenize input_string minimum_chunk_size d = (r, evs1)"
    by (cases "chunk_on_delimiter tokenize input_string minimum_chunk_size d") auto
  have "fst ?S \<noteq> Inl AssertionError \<and> prefix evs1 (snd ?S)"
  proof (cases r)
    case (Inl e)
    with probe chunk_on_delimiter_Inl [of tokenize input_string minimum_chunk_size d e evs1]
    have "e = ValueError" by simp
    with Inl probe range show ?thesis
      by (simp add: summarize_def)
  next
    case (Inr cs)
    note probe' = probe [unfolded Inr]
    show ?thesis
    proof (cases "interpolate_num_chunks detail (length cs) = 0")
      case True
      then show ?thesis
        by (simp add: summarize_zero [OF lo hi probe'])
    next
      case False
      from chunk_on_delimiter_total [OF chunk_on_delimiter_delimiter [OF probe']]
      obtain text_chunks evs2 where
        pass: "chunk_on_delimiter tokenize input_string
               (max minimum_chunk_size
                  (int (length (tokenize input_string)) div interpolate_num_chunks detail (length cs)))
               d = (Inr text_chunks, evs2)"
        by blast
      have "fst (summarize_text_chunks tokenize client model additional_instructions
                     recursively verbose text_chunks) \<noteq> Inl AssertionError"
        using summarize_text_chunks_error by fastforce
      then show ?thesis
        by (simp add: summarize_run [OF lo hi probe' False pass])
    qed
  qed
  with probe show "fst ?S \<noteq> Inl AssertionError" and
    "prefix (snd (chunk_on_delimiter tokenize input_string minimum_chunk_size d)) (snd ?S)"
    by simp_all
qed


theorem detail_precondition_witness:
  "\<not> (0 \<le> (2::real) \<and> (2::real) \<le> 1) \<and>
   summarize char_tokenize tail_client ''aaaa.bbbb'' 2 ''m'' None 3 ''.'' False True =
     (Inl AssertionError, []) \<and>
   (0 \<le> (1/2::real) \<and> (1/2::real) \<le> 1) \<and>
   fst (summarize char_tokenize tail_client ''aaaa.bbbb'' (1/2) ''m'' None 3 ''.'' False True) \<noteq>
     Inl AssertionError \<and>
   snd (chunk_on_delimiter char_tokenize ''aaaa.bbbb'' 3 ''.'') =
     [Chunk_overflow_warning, Chunk_overflow_warning, Dropped_warning 1] \<and>
   prefix [Chunk_overflow_warning, Chunk_overflow_warning, Dropped_warning 1]
     (snd (summarize char_tokenize tail_client ''aaaa.bbbb'' (1/2) ''m'' None 3 ''.'' False True))"
proof -
  have out: "\<not> (0 \<le> (2::real) \<and> (2::real) \<le> 1)" by simp
  have inside: "0 \<le> (1/2::real) \<and> (1/2::real) \<le> 1" by simp
  have probe: "snd (chunk_on_delimiter char_tokenize ''aaaa.bbbb'' 3 ''.'') =
     [Chunk_overflow_warning, Chunk_overflow_warning, Dropped_warning 1]"
    by code_simp
  from detail_precondition
    [where detail = 2 and tokenize = char_tokenize and client = tail_client
       and input_string = "''aaaa.bbbb''" and model = "''m''" and additional_instructions = None
       and minimum_chunk_size = 3 and d = "''.''" and recursively = False and verbose = True] out
  have a: "summarize char_tokenize tail_client ''aaaa.bbbb'' 2 ''m'' None 3 ''.'' False True =
     (Inl AssertionError, [])"
    by blast
  from detail_precondition
    [where detail = "1/2" and tokenize = char_tokenize and client = tail_client
       and input_string = "''aaaa.bbbb''" and model = "''m''" and additional_instructions = None
       and minimum_chunk_size = 3 and d = "''.''" and recursively = False and verbose = True] inside
  have b: "fst (summarize char_tokenize tail_client ''aaaa.bbbb'' (1/2) ''m'' None 3 ''.'' False True) \<noteq>
     Inl AssertionError \<and>
     prefix (snd (chunk_on_delimiter char_tokenize ''aaaa.bbbb'' 3 ''.''))
       (snd (summarize char_tokenize tail_client ''aaaa.bbbb'' (1/2) ''m'' None 3 ''.'' False True))"
    by blast
  from out a inside b probe show ?thesis by simp
qed

section \<open>The messages sent to the completion service\<close>

lemma summarize_loop_Cons_Inr:
  assumes "summarize_loop client model sys recursively acc (chunk # rest) = (Inr S, evs)"
  obtains response evs' where
    "client model [(''system'', sys), (''user'', user_message_content recursively acc chunk)] = Inr response"
    "summarize_loop client model sys recursively (acc @ [response]) rest = (Inr S, evs')"
    "evs = Completion_request model
             [(''system'', sys), (''user'', user_message_content recursively acc chunk)] # evs'"
  using assms
  by (auto simp: get_chat_completion_def Let_def split: sum.splits prod.splits)

lemma summarize_loop_requests:
  "summarize_loop client model sys recursively acc chunks = (Inr S, evs) \<Longrightarrow>
   \<exists>R. S = acc @ R \<and> length R = length chunks \<and> length evs = length chunks \<and>
     (\<forall>i<length chunks.
        evs ! i = Completion_request model
          [(''system'', sys), (''user'', user_message_content recursively (acc @ take i R) (chunks ! i))] \<and>
        client model
          [(''system'', sys), (''user'', user_message_content recursively (acc @ take i R) (chunks ! i))] =
          Inr (R ! i))"
proof (induction chunks arbitrary: acc S evs)
  case Nil
  then show ?case by simp
next
  case (Cons chunk rest)
  from Cons.prems obtain response evs' where
    resp: "client model [(''system'', sys), (''user'', user_message_content recursively acc chunk)] =
           Inr response"
    and run: "summarize_loop client model sys recursively (acc @ [response]) rest = (Inr S, evs')"
    and evs: "evs = Completion_request model
             [(''system'', sys), (''user'', user_message_content recursively acc chunk)] # evs'"
    by (rule summarize_loop_Cons_Inr)
  from Cons.IH [OF run] obtain R' where
    S: "S = (acc @ [response]) @ R'" and lR: "length R' = length rest"
    and le: "length evs' = length rest"
    and each: "\<forall>i<length rest.
        evs' ! i = Completion_request model
          [(''system'', sys),
           (''user'', user_message_content recursively ((acc @ [response]) @ take i R') (rest ! i))] \<and>
        client model
          [(''system'', sys),
           (''user'', user_message_content recursively ((acc @ [response]) @ take i R') (rest ! i))] =
          Inr (R' ! i)"
    by blast
  show ?case
  proof (intro exI [of _ "response # R'"] conjI allI impI)
    show "S = acc @ response # R'" using S by simp
    show "length (response # R') = length (chunk # rest)" using lR by simp
    show "length evs = length (chunk # rest)" using le evs by simp
  next
    fix i assume i: "i < length (chunk # rest)"
    show "evs ! i = Completion_request model
          [(''system'', sys),
           (''user'', user_message_content recursively (acc @ take i (response # R')) ((chunk # rest) ! i))]"
      using i each evs by (cases i) simp_all
    show "client model
          [(''system'', sys),
           (''user'', user_message_content recursively (acc @ take i (response # R')) ((chunk # rest) ! i))] =
          Inr ((response # R') ! i)"
      using i each resp by (cases i) simp_all
  qed
qed

lemma summarize_loop_prefix:
  "summarize_loop client model sys recursively acc (xs @ ys) = (Inr S, evs) \<Longrightarrow>
   summarize_loop client model sys recursively acc xs =
     (Inr (take (length acc + length xs) S), take (length xs) evs)"
proof (induction xs arbitrary: acc S evs)
  case Nil
  from summarize_loop_requests [OF Nil.prems [simplified]] obtain R where "S = acc @ R" by blast
  then show ?case by simp
next
  case (Cons x xs)
  from Cons.prems have "summarize_loop client model sys recursively acc (x # (xs @ ys)) = (Inr S, evs)"
    by simp
  then obtain response evs' where
    resp: "client model [(''system'', sys), (''user'', user_message_content recursively acc x)] =
           Inr response"
    and run: "summarize_loop client model sys recursively (acc @ [response]) (xs @ ys) = (Inr S, evs')"
    and evs: "evs = Completion_request model
             [(''system'', sys), (''user'', user_message_content recursively acc x)] # evs'"
    by (rule summarize_loop_Cons_Inr)
  from Cons.IH [OF run] show ?case
    using resp evs by (simp add: get_chat_completion_def Let_def)
qed

lemma summarize_loop_returns:
  assumes "\<forall>messages. \<exists>response. client model messages = Inr response"
  shows "\<exists>summaries evs.
           summarize_loop client model sys recursively acc text_chunks = (Inr summaries, evs)"
proof (induction text_chunks arbitrary: acc)
  case Nil
  show ?case by simp
next
  case (Cons chunk rest)
  from assms obtain response where
    "client model [(''system'', sys), (''user'', user_message_content recursively acc chunk)] =
     Inr response"
    by blast
  moreover from Cons.IH [of "acc @ [response]"] obtain summaries evs where
    "summarize_loop client model sys recursively (acc @ [response]) rest = (Inr summaries, evs)"
    by blast
  ultimately show ?case
    by (simp add: get_chat_completion_def)
qed

text \<open>
  C6. When the loop of \<^verbatim>\<open>summarize\<close> runs to its end (it does whenever every call of
  the service returns), it sends one request per chunk, in order. The user message of request \<open>i\<close> is the chunk itself for \<open>i = 0\<close> and in
  non-recursive mode; in recursive mode with \<open>i > 0\<close> it is \<open>Previous summaries:\<close>, a
  blank line, the summaries \<open>0..i-1\<close> joined by blank lines, a blank line,
  \<open>Text to summarize next:\<close>, a blank line and chunk \<open>i\<close>. Summary \<open>i\<close> is the service's
  answer to request \<open>i\<close>. The run over the first \<open>k\<close> chunks alone gives the first \<open>k\<close>
  requests and summaries, so no summary depends on a later chunk. The final summary is
  the summaries joined by blank lines.
\<close>

theorem recursive_user_messages:
  assumes run: "summarize_loop client model (system_message_content additional_instructions)
                  recursively [] text_chunks = (Inr summaries, evs)"
  shows "length summaries = length text_chunks \<and> length evs = length text_chunks \<and>
    (\<forall>i<length text_chunks.
       evs ! i = Completion_request model
         [(''system'', system_message_content additional_instructions),
          (''user'',
           if recursively \<and> 0 < i
           then ''Previous summaries:\<newline>\<newline>'' @ join ''\<newline>\<newline>'' (take i summaries) @
                ''\<newline>\<newline>Text to summarize next:\<newline>\<newline>'' @ text_chunks ! i
           else text_chunks ! i)] \<and>
       (\<exists>messages. evs ! i = Completion_request model messages \<and>
                   client model messages = Inr (summaries ! i))) \<and>
    (\<forall>k\<le>length text_chunks.
       summarize_loop client model (system_message_content additional_instructions) recursively []
         (take k text_chunks) = (Inr (take k summaries), take k evs)) \<and>
    summarize_text_chunks tokenize client model additional_instructions recursively False text_chunks =
      (Inr (join ''\<newline>\<newline>'' summaries), evs)"
proof (intro conjI allI impI)
  from summarize_loop_requests [OF run] obtain R where
    S: "summaries = R" and lR: "length R = length text_chunks"
    and le: "length evs = length text_chunks"
    and each: "\<forall>i<length text_chunks.
        evs ! i = Completion_request model
          [(''system'', system_message_content additional_instructions),
           (''user'', user_message_content recursively (take i R) (text_chunks ! i))] \<and>
        client model
          [(''system'', system_message_content additional_instructions),
           (''user'', user_message_content recursively (take i R) (text_chunks ! i))] =
          Inr (R ! i)"
    by auto
  show "length summaries = length text_chunks" using S lR by simp
  show "length evs = length text_chunks" by (rule le)
  show "summarize_text_chunks tokenize client model additional_instructions recursively False text_chunks =
      (Inr (join ''\<newline>\<newline>'' summaries), evs)"
    by (simp add: summarize_text_chunks_def run)
  {
    fix i assume i: "i < length text_chunks"
    have nonempty: "take i R \<noteq> [] \<longleftrightarrow> 0 < i"
      using i lR by (cases i) auto
    show "evs ! i = Completion_request model
         [(''system'', system_message_content additional_instructions),
          (''user'',
           if recursively \<and> 0 < i
           then ''Previous summaries:\<newline>\<newline>'' @ join ''\<newline>\<newline>'' (take i summaries) @
                ''\<newline>\<newline>Text to summarize next:\<newline>\<newline>'' @ text_chunks ! i
           else text_chunks ! i)]"
      using each i nonempty by (simp add: user_message_content_def S)
    show "\<exists>messages. evs ! i = Completion_request model messages \<and>
                   client model messages = Inr (summaries ! i)"
      using each i S by blast
  }
  {
    fix k assume k: "k \<le> length text_chunks"
    have "summarize_loop client model (system_message_content additional_instructions) recursively []
            (take k text_chunks @ drop k text_chunks) = (Inr summaries, evs)"
      using run by simp
    from summarize_loop_prefix [OF this] k
    show "summarize_loop client model (system_message_content additional_instructions) recursively []
         (take k text_chunks) = (Inr (take k summaries), take k evs)"
      by (simp add: min_def)
  }
qed

theorem recursive_user_messages_witness:
  "summarize_loop tail_client ''m'' (system_message_content None) True [] [''ab.'', ''cd.'', ''ef.''] =
     (Inr [''[ab.]'', ''[cd.]'', ''[ef.]''],
      [Completion_request ''m''
         [(''system'', ''Rewrite this text in summarized form.''), (''user'', ''ab.'')],
       Completion_request ''m''
         [(''system'', ''Rewrite this text in summarized form.''),
          (''user'', ''Previous summaries:\<newline>\<newline>[ab.]\<newline>\<newline>Text to summarize next:\<newline>\<newline>cd.'')],
       Completion_request ''m''
         [(''system'', ''Rewrite this text in summarized form.''),
          (''user'', ''Previous summaries:\<newline>\<newline>[ab.]\<newline>\<newline>[cd.]\<newline>\<newline>Text to summarize next:\<newline>\<newline>ef.'')]]) \<and>
   summarize_loop tail_client ''m'' (system_message_content None) True [] (take 2 [''ab.'', ''cd.'', ''ef.'']) =
     (Inr [''[ab.]'', ''[cd.]''],
      [Completion_request ''m''
         [(''system'', ''Rewrite this text in summarized form.''), (''user'', ''ab.'')],
       Completion_request ''m''
         [(''system'', ''Rewrite this text in summarized form.''),
          (''user'', ''Previous summaries:\<newline>\<newline>[ab.]\<newline>\<newline>Text to summarize next:\<newline>\<newline>cd.'')]]) \<and>
   summarize_text_chunks char_tokenize tail_client ''m'' None True False [''ab.'', ''cd.'', ''ef.''] =
     (Inr ''[ab.]\<newline>\<newline>[cd.]\<newline>\<newline>[ef.]'',
      [Completion_request ''m''
         [(''system'', ''Rewrite this text in summarized form.''), (''user'', ''ab.'')],
       Completion_request ''m''
         [(''system'', ''Rewrite this text in summarized form.''),
          (''user'', ''Previous summaries:\<newline>\<newline>[ab.]\<newline>\<newline>Text to summarize next:\<newline>\<newline>cd.'')],
       Completion_request ''m''
         [(''system'', ''Rewrite this text in summarized form.''),
          (''user'', ''Previous summaries:\<newline>\<newline>[ab.]\<newline>\<newline>[cd.]\<newline>\<newline>Text to summarize next:\<newline>\<newline>ef.'')]])"
proof -
  let ?r0 = "Completion_request ''m''
         [(''system'', ''Rewrite this text in summarized form.''), (''user'', ''ab.'')]"
  let ?r1 = "Completion_request ''m''
         [(''system'', ''Rewrite this text in summarized form.''),
          (''user'', ''Previous summaries:\<newline>\<newline>[ab.]\<newline>\<newline>Text to summarize next:\<newline>\<newline>cd.'')]"
  let ?r2 = "Completion_request ''m''
         [(''system'', ''Rewrite this text in summarized form.''),
          (''user'', ''Previous summaries:\<newline>\<newline>[ab.]\<newline>\<newline>[cd.]\<newline>\<newline>Text to summarize next:\<newline>\<newline>ef.'')]"
  have run: "summarize_loop tail_client ''m'' (system_message_content None) True []
               [''ab.'', ''cd.'', ''ef.''] = (Inr [''[ab.]'', ''[cd.]'', ''[ef.]''], [?r0, ?r1, ?r2])"
    by code_simp
  note inst = recursive_user_messages [OF run, of char_tokenize]
  have two: "(2::nat) \<le> length [''ab.'', ''cd.'', ''ef.'']" by simp
  from inst have
    "summarize_loop tail_client ''m'' (system_message_content None) True []
       (take 2 [''ab.'', ''cd.'', ''ef.'']) =
     (Inr (take 2 [''[ab.]'', ''[cd.]'', ''[ef.]'']), take 2 [?r0, ?r1, ?r2])"
    using two by blast
  then have prefix_run:
    "summarize_loop tail_client ''m'' (system_message_content None) True []
       (take 2 [''ab.'', ''cd.'', ''ef.'']) = (Inr [''[ab.]'', ''[cd.]''], [?r0, ?r1])"
    by (simp only: take_Suc_Cons take_0 numeral_2_eq_2)
  from inst have
    "summarize_text_chunks char_tokenize tail_client ''m'' None True False [''ab.'', ''cd.'', ''ef.''] =
     (Inr (join ''\<newline>\<newline>'' [''[ab.]'', ''[cd.]'', ''[ef.]'']), [?r0, ?r1, ?r2])"
    by blast
  then have whole:
    "summarize_text_chunks char_tokenize tail_client ''m'' None True False [''ab.'', ''cd.'', ''ef.''] =
     (Inr ''[ab.]\<newline>\<newline>[cd.]\<newline>\<newline>[ef.]'', [?r0, ?r1, ?r2])"
    by simp
  from run prefix_run whole show ?thesis by (intro conjI)
qed

end
